theory Spec2Isabelle
  imports Main "HOL-Library.Word"
begin

text \<open>
  The notification bridge of the wallet's pages, in three parts:
  \<^item> the tx and block listener adapter of package \<^verbatim>\<open>listeners\<close>
    (\<^verbatim>\<open>NewTxAndBlockNotificationListener\<close>, \<^verbatim>\<open>OnTransaction\<close>,
    \<^verbatim>\<open>OnBlockAttached\<close>, \<^verbatim>\<open>OnTransactionConfirmed\<close>, \<^verbatim>\<open>UpdateNotification\<close>);
  \<^item> the attach, consumer loop and teardown shared by \<^verbatim>\<open>ProposalsPage\<close>,
    \<^verbatim>\<open>AccountMixerPage\<close> and \<^verbatim>\<open>OrderHistoryPage\<close> (\<^verbatim>\<open>OnNavigatedTo\<close>,
    \<^verbatim>\<open>OnNavigatedFrom\<close>, \<^verbatim>\<open>listenForSyncNotifications\<close>,
    \<^verbatim>\<open>listenForMixerNotifications\<close>), as a transition system over the state
    shared by the UI thread, the consumer goroutines and the engine's callbacks;
  \<^item> the consumer loop of \<^verbatim>\<open>TransactionsPage\<close> (\<^verbatim>\<open>OnResume\<close>,
    \<^verbatim>\<open>listenForTxNotifications\<close>, \<^verbatim>\<open>OnClose\<close>).
\<close>

section \<open>Go channels\<close>

text \<open>
  The notification bridge is built on Go channels. A channel made by
  \<^verbatim>\<open>make(chan T, n)\<close> is a FIFO of at most \<open>n\<close> values and a closed flag.
  The three operations follow the Go language specification:
  \<^item> a send on a closed channel panics, a send on a full channel blocks, any other
    send appends the value;
  \<^item> a receive takes the oldest value; on an empty channel it blocks, unless the
    channel is closed, in which case it yields the zero value at once;
  \<^item> closing a closed channel panics.
  An operation that blocks is the value \<open>Blocked\<close>: the caller stays at the
  statement and the channel is unchanged. On an unbuffered channel (capacity 0)
  a send therefore blocks as an operation on the channel alone; it completes by
  handing the value to a waiting receiver, which is a step of both goroutines
  (\<open>rendezvous\<close> below).
\<close>

record 'a chan =
  cap :: nat
  buf :: "'a list"
  closed :: bool

datatype panic = SendOnClosedChannel | CloseOfClosedChannel | NilDereference

datatype 'a outcome = Done 'a | Blocked | Panic panic

definition make_chan :: "nat \<Rightarrow> 'a chan" where
  "make_chan n = \<lparr>cap = n, buf = [], closed = False\<rparr>"

definition chan_send :: "'a \<Rightarrow> 'a chan \<Rightarrow> 'a chan outcome" where
  "chan_send v c =
     (if closed c then Panic SendOnClosedChannel
      else if length (buf c) < cap c then Done (c\<lparr>buf := buf c @ [v]\<rparr>)
      else Blocked)"

text \<open>A receive returns \<open>Some v\<close> for a buffered value and \<open>None\<close> for the zero
  value read from a closed, drained channel.\<close>

definition chan_recv :: "'a chan \<Rightarrow> ('a option \<times> 'a chan) outcome" where
  "chan_recv c =
     (case buf c of
        v # vs \<Rightarrow> Done (Some v, c\<lparr>buf := vs\<rparr>)
      | [] \<Rightarrow> (if closed c then Done (None, c) else Blocked))"

definition chan_close :: "'a chan \<Rightarrow> 'a chan outcome" where
  "chan_close c =
     (if closed c then Panic CloseOfClosedChannel else Done (c\<lparr>closed := True\<rparr>))"

section \<open>The tx and block listener adapter (package listeners)\<close>

text \<open>
  \<^verbatim>\<open>TxNotification\<close> is the value carried by the channel. The transaction type of
  libwallet is opaque here (type variable \<open>'tx\<close>); a nil \<^verbatim>\<open>*Transaction\<close> is
  \<open>None\<close>. Go's \<^verbatim>\<open>int\<close> is a 64-bit word, \<^verbatim>\<open>int32\<close> a 32-bit word.
\<close>

datatype TxNotificationType = NewTransaction | BlockAttached | TxConfirmed

record 'tx TxNotification =
  Type :: TxNotificationType
  Transaction :: "'tx option"
  WalletID :: "64 word"
  BlockHeight :: "32 word"
  Hash :: string

record 'tx TxAndBlockNotificationListener =
  TxAndBlockNotifChan :: "'tx TxNotification chan"

definition NewTxAndBlockNotificationListener :: "'tx TxAndBlockNotificationListener" where
  "NewTxAndBlockNotificationListener = \<lparr>TxAndBlockNotifChan = make_chan 4\<rparr>"

text \<open>\<^verbatim>\<open>txAndBlk.TxAndBlockNotifChan <- signal\<close>: a plain blocking send.\<close>

definition UpdateNotification ::
  "'tx TxNotification \<Rightarrow> 'tx TxAndBlockNotificationListener
     \<Rightarrow> 'tx TxAndBlockNotificationListener outcome" where
  "UpdateNotification signal l =
     (case chan_send signal (TxAndBlockNotifChan l) of
        Done c \<Rightarrow> Done (l\<lparr>TxAndBlockNotifChan := c\<rparr>)
      | Blocked \<Rightarrow> Blocked
      | Panic p \<Rightarrow> Panic p)"

text \<open>
  \<^verbatim>\<open>OnTransaction\<close> decodes its argument with \<^verbatim>\<open>json.Unmarshal\<close>, which is
  a parameter of the model: \<open>Inl err\<close> is a decoding error, \<open>Inr tx\<close> the decoded
  transaction. The result pairs the lines written with \<^verbatim>\<open>log.Errorf\<close> with the
  outcome of the call. Fields not set by the composite literal hold zero values.
\<close>

definition OnTransaction ::
  "(string \<Rightarrow> string + 'tx) \<Rightarrow> string \<Rightarrow> 'tx TxAndBlockNotificationListener
     \<Rightarrow> string list \<times> 'tx TxAndBlockNotificationListener outcome" where
  "OnTransaction unmarshal transaction l =
     (case unmarshal transaction of
        Inl err \<Rightarrow> ([''Error unmarshalling transaction: '' @ err], Done l)
      | Inr tx \<Rightarrow>
          ([], UpdateNotification
                 \<lparr>Type = NewTransaction, Transaction = Some tx, WalletID = 0,
                  BlockHeight = 0, Hash = []\<rparr> l))"

definition OnBlockAttached ::
  "64 word \<Rightarrow> 32 word \<Rightarrow> 'tx TxAndBlockNotificationListener
     \<Rightarrow> 'tx TxAndBlockNotificationListener outcome" where
  "OnBlockAttached walletID blockHeight l =
     UpdateNotification
       \<lparr>Type = BlockAttached, Transaction = None, WalletID = walletID,
        BlockHeight = blockHeight, Hash = []\<rparr> l"

definition OnTransactionConfirmed ::
  "64 word \<Rightarrow> string \<Rightarrow> 32 word \<Rightarrow> 'tx TxAndBlockNotificationListener
     \<Rightarrow> 'tx TxAndBlockNotificationListener outcome" where
  "OnTransactionConfirmed walletID hash blockHeight l =
     UpdateNotification
       \<lparr>Type = TxConfirmed, Transaction = None, WalletID = walletID,
        BlockHeight = blockHeight, Hash = hash\<rparr> l"

section \<open>The listener pages: attach, consumer loop, teardown\<close>

text \<open>
  \<^verbatim>\<open>ProposalsPage\<close>, \<^verbatim>\<open>AccountMixerPage\<close> and \<^verbatim>\<open>OrderHistoryPage\<close> share one
  protocol. The page embeds a pointer to its listener (nil until the first
  attach); the listener owns the notification channel; \<^verbatim>\<open>listenFor...\<close>
  registers with the engine and starts the consumer goroutine; the goroutine
  selects between the channel and \<^verbatim>\<open>pg.ctx.Done()\<close> and tears the registration
  down on cancellation.

  The page, the engine and the goroutines share the listener objects, so the
  model keeps a store: a listener is an address, \<open>chans\<close> maps an address to the
  channel of that listener, and \<open>next_addr\<close> is the next fresh address.
\<close>

text \<open>What the engine's table holds under a name: the listener itself
  (proposals, orders), the page, whose callback methods are promoted from the
  embedded listener pointer (account mixer), or the adapter of another instance
  of the page, registered under the same constant name.\<close>

datatype regobj = RegListener nat | RegPage | RegOther

text \<open>
  The parts that differ between the pages or that live outside the sources:
  the page identifier used as consumer name, the capacity passed to
  \<^verbatim>\<open>make\<close> by the listener's constructor, which object is registered, and
  whether the engine's remove call waits for callbacks that are still running
  (see the engine side below).
\<close>

record cfg =
  page_id :: string
  chan_cap :: nat
  registers_page :: bool
  engine_waits :: bool

text \<open>
  Program counter of a consumer goroutine. \<open>LoopHead\<close>: at the head of the
  \<^verbatim>\<open>for\<close> loop, before the \<^verbatim>\<open>select\<close> is entered (where the \<^verbatim>\<open>go\<close>
  statement starts it and where the receive case returns to). At the
  \<^verbatim>\<open>select\<close> Go evaluates the operands \<^verbatim>\<open>pg.ProposalNotifChan\<close> and
  \<^verbatim>\<open>pg.ctx.Done()\<close> once, on entry, and the goroutine then waits on those two
  channels: it holds the context that was \<^verbatim>\<open>pg.ctx\<close> when it entered.
  \<open>AtSelect\<close>: waiting, and the context held is still \<^verbatim>\<open>pg.ctx\<close>.
  \<open>AtSelectOld c\<close>: waiting, and \<^verbatim>\<open>OnNavigatedTo\<close> has replaced \<^verbatim>\<open>pg.ctx\<close>
  since; \<open>c\<close> tells whether the context held had been cancelled before. The
  cancel function of a replaced context is overwritten with it, so a replaced
  context that was not cancelled never will be. \<open>Handling v\<close>: inside the body of
  the receive case, with the value received (\<open>None\<close> being the zero value). Then
  the program points before each of the three statements of the cancellation
  case, and after \<^verbatim>\<open>return\<close>.
\<close>

datatype 'n gpc =
    LoopHead
  | AtSelect
  | AtSelectOld bool
  | Handling "'n option"
  | TdRemove
  | TdClose
  | TdClear
  | Returned

fun parked :: "'n gpc \<Rightarrow> bool" where
  "parked AtSelect = True"
| "parked (AtSelectOld c) = True"
| "parked _ = False"

text \<open>Observable events, recorded in program order.\<close>

datatype 'n event =
    EvAdd bool
  | EvLogError
  | EvSpawn
  | EvCancel
  | EvEnq nat 'n
  | EvDispatch nat "'n option"
  | EvRemove
  | EvClose nat
  | EvClear

record 'n world =
  listener :: "nat option"
  chans :: "nat \<Rightarrow> 'n chan"
  next_addr :: nat
  has_ctx :: bool
  cancelled :: bool
  registry :: "(string \<times> regobj) list"
  consumers :: "'n gpc list"
  sending :: "(nat \<times> 'n) list"
  trace :: "'n event list"
  panicked :: "panic option"

text \<open>
  The fields of the state: the page's listener pointer (\<open>None\<close> is nil), the
  store of listener channels, whether \<^verbatim>\<open>pg.ctx\<close> has been set and whether the
  current context is cancelled, the engine's table, the program counters of the
  consumer goroutines in the order they were started, the engine callbacks
  whose send has not completed yet (listener address and notification), the
  events so far, and the panic that ended the program, if any.

  A freshly constructed page: no listener, no context, nothing registered.
\<close>

definition new_page :: "'n world" where
  "new_page =
     \<lparr>listener = None, chans = (\<lambda>_. make_chan 0), next_addr = 0, has_ctx = False,
      cancelled = False, registry = [], consumers = [], sending = [], trace = [],
      panicked = None\<rparr>"

subsection \<open>The engine side\<close>

text \<open>
  Modelled from the spec: the engine's listener table and its two calls
  \<^verbatim>\<open>AddListener(name, adapter) -> error\<close> and \<^verbatim>\<open>RemoveListener(name)\<close> are
  not part of the sources. The spec describes the table as a mapping from
  consumer name to listener that enforces uniqueness: an add under a name that
  is present leaves the table as it is, and the spec leaves open whether the
  call then fails with \<^verbatim>\<open>AlreadyRegistered\<close> or returns success. The engine may
  also reject a new name (a wallet it does not recognise). The answer is the
  engine's decision in either case (\<open>accept\<close>); the adapter is stored only under
  a name that is not present and only when the answer is success. The table is
  kept as a list, so that a second entry under one name would be visible.
  Removing deletes what is stored under the name and is a no-op when there is
  nothing.
\<close>

definition AddNotificationListener ::
  "bool \<Rightarrow> regobj \<Rightarrow> string \<Rightarrow> (string \<times> regobj) list
     \<Rightarrow> (string \<times> regobj) list \<times> string option" where
  "AddNotificationListener accept obj name reg =
     (if name \<in> set (map fst reg)
      then (reg, if accept then None else Some ''AlreadyRegistered'')
      else if accept then (reg @ [(name, obj)], None) else (reg, Some ''rejected''))"

definition RemoveNotificationListener ::
  "string \<Rightarrow> (string \<times> regobj) list \<Rightarrow> (string \<times> regobj) list" where
  "RemoveNotificationListener name reg = filter (\<lambda>e. fst e \<noteq> name) reg"


text \<open>
  Modelled from the spec: when the engine's remove call returns relative to the
  callbacks it has started. The spec protects the table by a single lock, lets
  the unregister call block on a lock held by the engine, and has the consumer
  close the channel only after the engine has been told to stop sending: once
  \<^verbatim>\<open>RemoveListener\<close> has returned the engine sends no more. Accordingly the
  remove call returns only when no callback is running (\<open>engine_waits\<close>). The
  other discipline, a remove call that returns at once, is kept as the second
  value of the parameter.

  Modelled from the spec: the adapters of the proposal, mixer and order domains
  are not part of the sources; like \<open>UpdateNotification\<close> above, a callback
  translates its arguments into a notification and performs a blocking send.
  A callback is running from the moment the engine invokes it (\<open>engine_call\<close>:
  the \<open>k\<close>-th entry of the table is looked up and the receiver is resolved,
  through the page's listener pointer if the page was registered) until its send
  completes (\<open>engine_send\<close>). Under the lock the lookup and the invocation are
  not separated by a remove call, so they are one step; with a remove call that
  returns at once the step stands for the callbacks whose lookup and invocation
  no remove call separates. A callback of another instance's adapter does not
  touch this page.
\<close>

definition engine_call :: "nat \<Rightarrow> 'n \<Rightarrow> 'n world \<Rightarrow> 'n world option" where
  "engine_call k n w =
     (if k < length (registry w) then
        (case snd (registry w ! k) of
           RegListener a \<Rightarrow> Some (w\<lparr>sending := sending w @ [(a, n)]\<rparr>)
         | RegPage \<Rightarrow>
             (case listener w of
                None \<Rightarrow> Some (w\<lparr>panicked := Some NilDereference\<rparr>)
              | Some a \<Rightarrow> Some (w\<lparr>sending := sending w @ [(a, n)]\<rparr>))
         | RegOther \<Rightarrow> Some w)
      else None)"

definition engine_send :: "nat \<Rightarrow> 'n world \<Rightarrow> 'n world option" where
  "engine_send j w =
     (if j < length (sending w) then
        (case sending w ! j of
           (a, n) \<Rightarrow>
             (case chan_send n (chans w a) of
                Done c \<Rightarrow>
                  Some (w\<lparr>chans := (chans w)(a := c),
                          sending := take j (sending w) @ drop (Suc j) (sending w),
                          trace := trace w @ [EvEnq a n]\<rparr>)
              | Blocked \<Rightarrow> None
              | Panic p \<Rightarrow> Some (w\<lparr>panicked := Some p\<rparr>)))
      else None)"

text \<open>
  On an unbuffered channel (capacity 0, nothing ever buffered) a send does not
  complete by itself: the value is handed to a goroutine that waits in a receive
  on the channel, here a consumer waiting at its \<^verbatim>\<open>select\<close>, which then is in
  the body of its receive case. The step belongs to both: the callback \<open>j\<close> has
  sent and the consumer \<open>i\<close> has received.
\<close>

definition rendezvous :: "nat \<Rightarrow> nat \<Rightarrow> 'n world \<Rightarrow> 'n world option" where
  "rendezvous j i w =
     (if j < length (sending w) \<and> i < length (consumers w) \<and> parked (consumers w ! i) then
        (case sending w ! j of
           (a, n) \<Rightarrow>
             (if listener w = Some a \<and> cap (chans w a) = 0 \<and> buf (chans w a) = [] \<and>
                 \<not> closed (chans w a)
              then Some (w\<lparr>consumers := (consumers w)[i := Handling (Some n)],
                           sending := take j (sending w) @ drop (Suc j) (sending w),
                           trace := trace w @ [EvEnq a n, EvDispatch a (Some n)]\<rparr>)
              else None))
      else None)"

subsection \<open>Attach and detach\<close>

text \<open>
  \<^verbatim>\<open>listenForSyncNotifications\<close> / \<^verbatim>\<open>listenForMixerNotifications\<close>: the nil
  guard, the allocation of a new listener (stored in the page before the
  engine is called), the registration, and on success the \<^verbatim>\<open>go\<close> statement.
\<close>

definition listenForSyncNotifications :: "cfg \<Rightarrow> bool \<Rightarrow> 'n world \<Rightarrow> 'n world" where
  "listenForSyncNotifications cf accept w =
     (if listener w \<noteq> None then w
      else
        let a = next_addr w;
            w1 = w\<lparr>listener := Some a,
                   chans := (chans w)(a := make_chan (chan_cap cf)),
                   next_addr := Suc a\<rparr>
        in case AddNotificationListener accept
                  (if registers_page cf then RegPage else RegListener a)
                  (page_id cf) (registry w1) of
             (reg, Some err) \<Rightarrow>
               w1\<lparr>registry := reg, trace := trace w1 @ [EvAdd False, EvLogError]\<rparr>
           | (reg, None) \<Rightarrow>
               w1\<lparr>registry := reg, consumers := consumers w1 @ [LoopHead],
                  trace := trace w1 @ [EvAdd True, EvSpawn]\<rparr>)"

text \<open>
  \<^verbatim>\<open>OnNavigatedTo\<close> assigns a fresh, uncancelled context to \<^verbatim>\<open>pg.ctx\<close> and
  \<^verbatim>\<open>pg.ctxCancel\<close> and attaches. The context it replaces is not cancelled by
  the assignment: a goroutine that waits at its \<^verbatim>\<open>select\<close> keeps the
  context it read on entry, in the state that context had (\<open>replace_ctx\<close>).
  \<^verbatim>\<open>OnNavigatedFrom\<close> cancels the current context. What else
  \<^verbatim>\<open>OnNavigatedTo\<close> does (loading the list, reading flags for display) does
  not touch the bridge.
\<close>

definition replace_ctx :: "bool \<Rightarrow> 'n gpc \<Rightarrow> 'n gpc" where
  "replace_ctx c pc = (if pc = AtSelect then AtSelectOld c else pc)"

definition OnNavigatedTo :: "cfg \<Rightarrow> bool \<Rightarrow> 'n world \<Rightarrow> 'n world" where
  "OnNavigatedTo cf accept w =
     listenForSyncNotifications cf accept
       (w\<lparr>has_ctx := True, cancelled := False,
          consumers := map (replace_ctx (cancelled w)) (consumers w)\<rparr>)"

definition OnNavigatedFrom :: "'n world \<Rightarrow> 'n world" where
  "OnNavigatedFrom w = w\<lparr>cancelled := True, trace := trace w @ [EvCancel]\<rparr>"

subsection \<open>The consumer goroutine\<close>

text \<open>
  Entering the \<^verbatim>\<open>select\<close> evaluates its operands: \<^verbatim>\<open>pg.ProposalNotifChan\<close>
  dereferences the listener pointer, \<^verbatim>\<open>pg.ctx.Done()\<close> reads the current
  context.
\<close>

definition enter_select :: "nat \<Rightarrow> 'n world \<Rightarrow> 'n world" where
  "enter_select i w =
     (case listener w of
        None \<Rightarrow> w\<lparr>panicked := Some NilDereference\<rparr>
      | Some a \<Rightarrow> w\<lparr>consumers := (consumers w)[i := AtSelect]\<rparr>)"

text \<open>
  The \<^verbatim>\<open>select\<close> has two cases. If one or more cases can proceed, Go takes
  one of them by a uniform pseudo-random choice; if none can, the goroutine
  blocks. Which ready case is taken is therefore the scheduler's choice:
  \<open>select_recv\<close> and \<open>select_cancel\<close> are separate steps, each enabled (\<open>Some\<close>)
  exactly when its case can proceed. The cancellation case can proceed when the
  context the goroutine holds is cancelled: the current one for \<open>AtSelect\<close>, the
  replaced one for \<open>AtSelectOld\<close>. While a consumer waits the listener pointer
  is not written (attach writes it only when it is nil, and it is cleared only
  by the consumer's own teardown), so the channel of the listener read here is
  the channel operand evaluated on entry.
\<close>

definition select_recv :: "nat \<Rightarrow> 'n world \<Rightarrow> 'n world option" where
  "select_recv i w =
     (case listener w of
        None \<Rightarrow> Some (w\<lparr>panicked := Some NilDereference\<rparr>)
      | Some a \<Rightarrow>
          (case chan_recv (chans w a) of
             Done (v, c) \<Rightarrow>
               Some (w\<lparr>chans := (chans w)(a := c),
                       consumers := (consumers w)[i := Handling v],
                       trace := trace w @ [EvDispatch a v]\<rparr>)
           | Blocked \<Rightarrow> None
           | Panic p \<Rightarrow> Some (w\<lparr>panicked := Some p\<rparr>)))"

definition select_cancel :: "nat \<Rightarrow> 'n world \<Rightarrow> 'n world option" where
  "select_cancel i w =
     (case listener w of
        None \<Rightarrow> Some (w\<lparr>panicked := Some NilDereference\<rparr>)
      | Some a \<Rightarrow>
          (if consumers w ! i = AtSelect \<and> cancelled w \<or> consumers w ! i = AtSelectOld True
           then Some (w\<lparr>consumers := (consumers w)[i := TdRemove]\<rparr>)
           else None))"

text \<open>The body of the receive case updates page-local display state and asks
  for a redraw; none of it touches the bridge, so the step only returns to the
  head of the loop.\<close>

definition handler_done :: "nat \<Rightarrow> 'n world \<Rightarrow> 'n world" where
  "handler_done i w = w\<lparr>consumers := (consumers w)[i := LoopHead]\<rparr>"

text \<open>The three statements of the cancellation case, in source order. The
  remove call returns at once unless the engine waits for running callbacks.\<close>

definition teardown_remove :: "cfg \<Rightarrow> nat \<Rightarrow> 'n world \<Rightarrow> 'n world option" where
  "teardown_remove cf i w =
     (if engine_waits cf \<and> sending w \<noteq> [] then None
      else Some (w\<lparr>registry := RemoveNotificationListener (page_id cf) (registry w),
                   consumers := (consumers w)[i := TdClose],
                   trace := trace w @ [EvRemove]\<rparr>))"

definition teardown_close :: "nat \<Rightarrow> 'n world \<Rightarrow> 'n world option" where
  "teardown_close i w =
     (case listener w of
        None \<Rightarrow> Some (w\<lparr>panicked := Some NilDereference\<rparr>)
      | Some a \<Rightarrow>
          (case chan_close (chans w a) of
             Done c \<Rightarrow>
               Some (w\<lparr>chans := (chans w)(a := c),
                       consumers := (consumers w)[i := TdClear],
                       trace := trace w @ [EvClose a]\<rparr>)
           | Blocked \<Rightarrow> None
           | Panic p \<Rightarrow> Some (w\<lparr>panicked := Some p\<rparr>)))"

definition teardown_clear :: "nat \<Rightarrow> 'n world \<Rightarrow> 'n world" where
  "teardown_clear i w =
     w\<lparr>listener := None, consumers := (consumers w)[i := Returned],
       trace := trace w @ [EvClear]\<rparr>"

subsection \<open>Interleavings\<close>

text \<open>
  One step of the whole system is one action of one thread: the UI thread
  navigates to or from the page (attach and detach are never concurrent with
  each other), a consumer goroutine enters its \<^verbatim>\<open>select\<close>, takes one of its
  cases or executes its next statement, the engine invokes a callback, a
  callback's send completes, or a callback hands its value to a waiting
  consumer. \<open>None\<close> means the action cannot be taken in this state (the thread
  is blocked or is not at that point). A panic ends the program.

  The navigator calls \<^verbatim>\<open>OnNavigatedFrom\<close> only on a page it has displayed, so
  the context exists when it is cancelled (\<^verbatim>\<open>OrderHistoryPage\<close> also checks
  \<^verbatim>\<open>pg.ctxCancel\<close> for nil itself). \<^verbatim>\<open>OnNavigatedTo\<close> is one action:
  once its nil guard has passed, no consumer is left that could write the
  listener pointer or the engine's table before its \<^verbatim>\<open>go\<close> statement. The
  consumers' statements and the engine's callbacks interleave freely with the
  UI thread and with each other.
\<close>

datatype 'n action =
    NavigateTo bool
  | NavigateFrom
  | SelectRecv nat
  | SelectCancel nat
  | Proceed nat
  | EngineCall nat 'n
  | EngineSend nat
  | Rendezvous nat nat

definition step :: "cfg \<Rightarrow> 'n action \<Rightarrow> 'n world \<Rightarrow> 'n world option" where
  "step cf act w =
     (if panicked w \<noteq> None then None
      else case act of
        NavigateTo accept \<Rightarrow> Some (OnNavigatedTo cf accept w)
      | NavigateFrom \<Rightarrow> (if has_ctx w then Some (OnNavigatedFrom w) else None)
      | SelectRecv i \<Rightarrow>
          (if i < length (consumers w) \<and> parked (consumers w ! i)
           then select_recv i w else None)
      | SelectCancel i \<Rightarrow>
          (if i < length (consumers w) \<and> parked (consumers w ! i)
           then select_cancel i w else None)
      | Proceed i \<Rightarrow>
          (if i < length (consumers w) then
             (case consumers w ! i of
                LoopHead \<Rightarrow> Some (enter_select i w)
              | Handling v \<Rightarrow> Some (handler_done i w)
              | TdRemove \<Rightarrow> teardown_remove cf i w
              | TdClose \<Rightarrow> teardown_close i w
              | TdClear \<Rightarrow> Some (teardown_clear i w)
              | _ \<Rightarrow> None)
           else None)
      | EngineCall k n \<Rightarrow> engine_call k n w
      | EngineSend j \<Rightarrow> engine_send j w
      | Rendezvous j i \<Rightarrow> rendezvous j i w)"

fun run :: "cfg \<Rightarrow> 'n action list \<Rightarrow> 'n world \<Rightarrow> 'n world option" where
  "run cf [] w = Some w"
| "run cf (act # acts) w =
     (case step cf act w of None \<Rightarrow> None | Some w' \<Rightarrow> run cf acts w')"

text \<open>Projections of the event record: what was enqueued on and what was
  dispatched from the channel of listener \<open>a\<close>, in order, and the statements of
  teardowns.\<close>

fun enqueued :: "nat \<Rightarrow> 'n event list \<Rightarrow> 'n list" where
  "enqueued a [] = []"
| "enqueued a (EvEnq b v # es) = (if a = b then v # enqueued a es else enqueued a es)"
| "enqueued a (_ # es) = enqueued a es"

fun dispatched :: "nat \<Rightarrow> 'n event list \<Rightarrow> 'n option list" where
  "dispatched a [] = []"
| "dispatched a (EvDispatch b v # es) =
     (if a = b then v # dispatched a es else dispatched a es)"
| "dispatched a (_ # es) = dispatched a es"

fun teardown_events :: "'n event list \<Rightarrow> 'n event list" where
  "teardown_events [] = []"
| "teardown_events (EvRemove # es) = EvRemove # teardown_events es"
| "teardown_events (EvClose a # es) = EvClose a # teardown_events es"
| "teardown_events (EvClear # es) = EvClear # teardown_events es"
| "teardown_events (_ # es) = teardown_events es"

subsection \<open>Other instances of the page\<close>





subsection \<open>Registration life cycle\<close>

text \<open>
  Where a registration stands, read off the program counter of a consumer:
  registered from the \<^verbatim>\<open>go\<close> statement until the remove call, then removed,
  then closed, and unregistered again once the listener pointer is cleared.
  \<open>lifecycle\<close> runs over an event record and returns the phase reached, or
  \<open>None\<close> if a successful add, a remove, a close or a clear occurs out of
  the cyclic order add, remove, close, clear.
\<close>

datatype phase = Unregistered | Registered | Removed | Closed

fun phase_of :: "'n gpc \<Rightarrow> phase" where
  "phase_of LoopHead = Registered"
| "phase_of AtSelect = Registered"
| "phase_of (AtSelectOld c) = Registered"
| "phase_of (Handling v) = Registered"
| "phase_of TdRemove = Registered"
| "phase_of TdClose = Removed"
| "phase_of TdClear = Closed"
| "phase_of Returned = Unregistered"

definition phase :: "'n gpc list \<Rightarrow> phase" where
  "phase cs = (if cs = [] then Unregistered else phase_of (last cs))"

fun lifecycle :: "phase \<Rightarrow> 'n event list \<Rightarrow> phase option" where
  "lifecycle p [] = Some p"
| "lifecycle p (EvAdd True # es) = (if p = Unregistered then lifecycle Registered es else None)"
| "lifecycle p (EvRemove # es) = (if p = Registered then lifecycle Removed es else None)"
| "lifecycle p (EvClose a # es) = (if p = Removed then lifecycle Closed es else None)"
| "lifecycle p (EvClear # es) = (if p = Closed then lifecycle Unregistered es else None)"
| "lifecycle p (_ # es) = lifecycle p es"

text \<open>Number of calls of the engine's add function recorded in a trace.\<close>

fun add_calls :: "'n event list \<Rightarrow> nat" where
  "add_calls [] = 0"
| "add_calls (EvAdd ok # es) = Suc (add_calls es)"
| "add_calls (_ # es) = add_calls es"

text \<open>
  A consumer is in its loop when it is at the head of the loop, in the body of
  the receive case, or waiting at its \<^verbatim>\<open>select\<close> on a context that is not
  cancelled. A state is undisturbed when the current context is not cancelled
  and every consumer is in its loop or has returned: no goroutine holds, or will
  read, a cancelled context unless the page is detached again.
\<close>

fun in_loop :: "'n gpc \<Rightarrow> bool" where
  "in_loop LoopHead = True"
| "in_loop AtSelect = True"
| "in_loop (AtSelectOld c) = (\<not> c)"
| "in_loop (Handling v) = True"
| "in_loop _ = False"

definition undisturbed :: "'n world \<Rightarrow> bool" where
  "undisturbed w \<longleftrightarrow>
     \<not> cancelled w \<and> list_all (\<lambda>pc. in_loop pc \<or> pc = Returned) (consumers w)"

subsection \<open>The three pages\<close>

text \<open>The page identifiers are the constants of the sources; the channel
  capacity and the engine's discipline stay parameters.\<close>

definition ProposalsPage :: "nat \<Rightarrow> bool \<Rightarrow> cfg" where
  "ProposalsPage n waits =
     \<lparr>page_id = ''Proposals'', chan_cap = n, registers_page = False, engine_waits = waits\<rparr>"

definition AccountMixerPage :: "nat \<Rightarrow> bool \<Rightarrow> cfg" where
  "AccountMixerPage n waits =
     \<lparr>page_id = ''AccountMixer'', chan_cap = n, registers_page = True, engine_waits = waits\<rparr>"

definition OrderHistoryPage :: "nat \<Rightarrow> bool \<Rightarrow> cfg" where
  "OrderHistoryPage n waits =
     \<lparr>page_id = ''OrderHistory'', chan_cap = n, registers_page = False, engine_waits = waits\<rparr>"

subsection \<open>Invariants of the reachable states\<close>

definition expected_reg :: "cfg \<Rightarrow> nat \<Rightarrow> (string \<times> regobj) list" where
  "expected_reg cf a = [(page_id cf, if registers_page cf then RegPage else RegListener a)]"

text \<open>Only the goroutine started last can be alive, and its program counter
  determines the listener pointer, the engine's table, whether the channel is
  open, and the life-cycle phase recorded by the trace.\<close>

definition inv_pcs :: "cfg \<Rightarrow> 'n world \<Rightarrow> bool" where
  "inv_pcs cf w \<longleftrightarrow>
     (\<forall>i. Suc i < length (consumers w) \<longrightarrow> consumers w ! i = Returned) \<and>
     (listener w = None \<longrightarrow> phase (consumers w) = Unregistered) \<and>
     (phase (consumers w) = Unregistered \<longrightarrow> registry w = []) \<and>
     (phase (consumers w) = Registered \<longrightarrow>
        (\<exists>a. listener w = Some a \<and> \<not> closed (chans w a) \<and> registry w = expected_reg cf a)) \<and>
     (phase (consumers w) = Removed \<longrightarrow>
        (\<exists>a. listener w = Some a \<and> \<not> closed (chans w a)) \<and> registry w = []) \<and>
     (phase (consumers w) = Closed \<longrightarrow> listener w \<noteq> None \<and> registry w = []) \<and>
     lifecycle Unregistered (trace w) = Some (phase (consumers w))"

definition inv_alloc :: "'n world \<Rightarrow> bool" where
  "inv_alloc w \<longleftrightarrow>
     (\<forall>a. listener w = Some a \<longrightarrow> a < next_addr w \<and> has_ctx w) \<and>
     (\<forall>a n. (a, n) \<in> set (sending w) \<longrightarrow> a < next_addr w) \<and>
     (\<forall>a. next_addr w \<le> a \<longrightarrow>
        enqueued a (trace w) = [] \<and> dispatched a (trace w) = [] \<and> buf (chans w a) = [] \<and>
        \<not> closed (chans w a))"

definition inv_fifo :: "'n world \<Rightarrow> bool" where
  "inv_fifo w \<longleftrightarrow>
     (\<forall>a. dispatched a (trace w) @ map Some (buf (chans w a)) = map Some (enqueued a (trace w)))"

definition inv_panic :: "'n world \<Rightarrow> bool" where
  "inv_panic w \<longleftrightarrow> panicked w = None \<or> panicked w = Some SendOnClosedChannel"

definition inv_waits :: "'n world \<Rightarrow> bool" where
  "inv_waits w \<longleftrightarrow>
     (sending w \<noteq> [] \<longrightarrow> phase (consumers w) = Registered) \<and>
     (\<forall>a n. (a, n) \<in> set (sending w) \<longrightarrow> listener w = Some a) \<and>
     panicked w = None"

definition inv :: "cfg \<Rightarrow> 'n world \<Rightarrow> bool" where
  "inv cf w \<longleftrightarrow>
     inv_pcs cf w \<and> inv_alloc w \<and> inv_fifo w \<and> inv_panic w \<and> (engine_waits cf \<longrightarrow> inv_waits w)"

text \<open>The state a page is left in by a failed registration, relative to the
  state \<open>w0\<close> right after the failure: the listener pointer stays set, nothing
  is registered, no consumer runs, and no callback targets the new listener.\<close>

definition degraded :: "'n world \<Rightarrow> 'n world \<Rightarrow> bool" where
  "degraded w0 w \<longleftrightarrow>
     listener w0 \<noteq> None \<and> listener w = listener w0 \<and> registry w = [] \<and>
     consumers w = consumers w0 \<and> (\<forall>i < length (consumers w0). consumers w0 ! i = Returned) \<and>
     (\<forall>a n. (a, n) \<in> set (sending w) \<longrightarrow> listener w0 \<noteq> Some a) \<and>
     (\<forall>a. listener w0 = Some a \<longrightarrow> enqueued a (trace w) = [] \<and> buf (chans w a) = []) \<and>
     (\<forall>a. dispatched a (trace w) = dispatched a (trace w0)) \<and>
     add_calls (trace w) = add_calls (trace w0)"


section \<open>The transactions page\<close>

text \<open>
  \<^verbatim>\<open>TransactionsPage\<close> reads the shared channel
  \<^verbatim>\<open>pg.Receiver.NotificationsUpdate\<close>; it neither creates a listener nor
  registers one. \<^verbatim>\<open>OnResume\<close> installs a fresh context, starts the consumer
  goroutine and loads the list; \<^verbatim>\<open>OnClose\<close> cancels the context. The
  goroutine's \<^verbatim>\<open>select\<close> has the same two cases and holds the context it
  read on entry in the same way; the cancellation case is a bare \<^verbatim>\<open>return\<close>.
  After a receive, the type switch reloads the list when the value is a
  \<^verbatim>\<open>wallet.NewTransaction\<close> for the selected wallet. The engine's table is part
  of the state to record that this page leaves it alone.
\<close>

datatype tx_note = NewTransactionNote "64 word" | OtherNote

datatype tx_pc =
    TxLoopHead
  | TxAtSelect
  | TxAtSelectOld bool
  | TxSwitch "tx_note option"
  | TxReturned

fun tx_parked :: "tx_pc \<Rightarrow> bool" where
  "tx_parked TxAtSelect = True"
| "tx_parked (TxAtSelectOld c) = True"
| "tx_parked _ = False"

record tx_page =
  NotificationsUpdate :: "tx_note chan"
  tx_cancelled :: bool
  tx_registry :: "(string \<times> regobj) list"
  tx_consumers :: "tx_pc list"
  selected_wallet :: "64 word"
  loads :: nat

definition listenForTxNotifications :: "tx_page \<Rightarrow> tx_page" where
  "listenForTxNotifications w = w\<lparr>tx_consumers := tx_consumers w @ [TxLoopHead]\<rparr>"

definition tx_replace_ctx :: "bool \<Rightarrow> tx_pc \<Rightarrow> tx_pc" where
  "tx_replace_ctx c pc = (if pc = TxAtSelect then TxAtSelectOld c else pc)"

definition OnResume :: "tx_page \<Rightarrow> tx_page" where
  "OnResume w =
     (let w1 = listenForTxNotifications
                 (w\<lparr>tx_cancelled := False,
                    tx_consumers := map (tx_replace_ctx (tx_cancelled w)) (tx_consumers w)\<rparr>)
      in w1\<lparr>loads := Suc (loads w1)\<rparr>)"

definition OnClose :: "tx_page \<Rightarrow> tx_page" where
  "OnClose w = w\<lparr>tx_cancelled := True\<rparr>"

definition tx_enter_select :: "nat \<Rightarrow> tx_page \<Rightarrow> tx_page" where
  "tx_enter_select i w = w\<lparr>tx_consumers := (tx_consumers w)[i := TxAtSelect]\<rparr>"

definition tx_select_recv :: "nat \<Rightarrow> tx_page \<Rightarrow> tx_page option" where
  "tx_select_recv i w =
     (case chan_recv (NotificationsUpdate w) of
        Done (v, c) \<Rightarrow>
          Some (w\<lparr>NotificationsUpdate := c, tx_consumers := (tx_consumers w)[i := TxSwitch v]\<rparr>)
      | _ \<Rightarrow> None)"

definition tx_select_cancel :: "nat \<Rightarrow> tx_page \<Rightarrow> tx_page option" where
  "tx_select_cancel i w =
     (if tx_consumers w ! i = TxAtSelect \<and> tx_cancelled w \<or>
         tx_consumers w ! i = TxAtSelectOld True
      then Some (w\<lparr>tx_consumers := (tx_consumers w)[i := TxReturned]\<rparr>)
      else None)"

definition tx_switch :: "nat \<Rightarrow> tx_note option \<Rightarrow> tx_page \<Rightarrow> tx_page" where
  "tx_switch i v w =
     (let w1 = (case v of
                  Some (NewTransactionNote walletID) \<Rightarrow>
                    (if selected_wallet w = walletID then w\<lparr>loads := Suc (loads w)\<rparr> else w)
                | _ \<Rightarrow> w)
      in w1\<lparr>tx_consumers := (tx_consumers w1)[i := TxLoopHead]\<rparr>)"

datatype tx_action = TxResume | TxClose | TxSelectRecv nat | TxSelectCancel nat | TxProceed nat

definition tx_step :: "tx_action \<Rightarrow> tx_page \<Rightarrow> tx_page option" where
  "tx_step act w =
     (case act of
        TxResume \<Rightarrow> Some (OnResume w)
      | TxClose \<Rightarrow> Some (OnClose w)
      | TxSelectRecv i \<Rightarrow>
          (if i < length (tx_consumers w) \<and> tx_parked (tx_consumers w ! i)
           then tx_select_recv i w else None)
      | TxSelectCancel i \<Rightarrow>
          (if i < length (tx_consumers w) \<and> tx_parked (tx_consumers w ! i)
           then tx_select_cancel i w else None)
      | TxProceed i \<Rightarrow>
          (if i < length (tx_consumers w) then
             (case tx_consumers w ! i of
                TxLoopHead \<Rightarrow> Some (tx_enter_select i w)
              | TxSwitch v \<Rightarrow> Some (tx_switch i v w)
              | _ \<Rightarrow> None)
           else None))"

section \<open>Example executions\<close>

text \<open>Concrete schedules and states on which the theorems below are
  evaluated. Notifications are natural numbers here.\<close>

text \<open>One notification is enqueued, the page is detached, and the consumer then
  enters its \<^verbatim>\<open>select\<close>.\<close>

definition tie_schedule :: "nat action list" where
  "tie_schedule = [NavigateTo True, EngineCall 0 7, EngineSend 0, NavigateFrom, Proceed 0]"


definition full_cycle :: "nat action list" where
  "full_cycle =
     [NavigateTo True, Proceed 0, NavigateFrom, SelectCancel 0, Proceed 0, Proceed 0, Proceed 0]"



text \<open>The page is detached and attached again before the consumer has entered
  its \<^verbatim>\<open>select\<close>; and the same while the handler of a notification runs.\<close>

definition reattach_schedule :: "nat action list" where
  "reattach_schedule = [NavigateTo True, NavigateFrom, NavigateTo True, Proceed 0]"

definition reattach_handler_schedule :: "nat action list" where
  "reattach_handler_schedule =
     [NavigateTo True, Proceed 0, EngineCall 0 7, EngineSend 0, SelectRecv 0,
      NavigateFrom, NavigateTo True, Proceed 0, Proceed 0]"

text \<open>One notification is buffered and a second callback is running when the
  page is detached and the consumer takes the cancellation case.\<close>

definition inflight_schedule :: "nat action list" where
  "inflight_schedule =
     [NavigateTo True, Proceed 0, EngineCall 0 7, EngineSend 0, EngineCall 0 8,
      NavigateFrom, SelectCancel 0]"



definition tx_tie :: tx_page where
  "tx_tie =
     \<lparr>NotificationsUpdate = \<lparr>cap = 4, buf = [NewTransactionNote 1], closed = False\<rparr>,
      tx_cancelled = True, tx_registry = [], tx_consumers = [TxAtSelect],
      selected_wallet = 1, loads = 1\<rparr>"

definition tx_example :: tx_page where
  "tx_example =
     \<lparr>NotificationsUpdate = \<lparr>cap = 4, buf = [NewTransactionNote 1], closed = False\<rparr>,
      tx_cancelled = False, tx_registry = [(''Main'', RegListener 0)],
      tx_consumers = [TxAtSelect], selected_wallet = 1, loads = 1\<rparr>"

definition example_unmarshal :: "string \<Rightarrow> string + nat" where
  "example_unmarshal s = (if s = ''{}'' then Inr 1 else Inl ''unexpected end of JSON input'')"

definition four_buffered :: "nat TxAndBlockNotificationListener" where
  "four_buffered =
     \<lparr>TxAndBlockNotifChan =
        \<lparr>cap = 4,
         buf = map (\<lambda>h. \<lparr>Type = BlockAttached, Transaction = None, WalletID = 1,
                          BlockHeight = h, Hash = []\<rparr>) [100, 101, 102, 103],
         closed = False\<rparr>\<rparr>"

section \<open>Invariant proofs\<close>

lemma enqueued_append [simp]: "enqueued a (xs @ ys) = enqueued a xs @ enqueued a ys"
  by (induction a xs rule: enqueued.induct) auto

lemma dispatched_append [simp]: "dispatched a (xs @ ys) = dispatched a xs @ dispatched a ys"
  by (induction a xs rule: dispatched.induct) auto

lemma teardown_events_append [simp]:
  "teardown_events (xs @ ys) = teardown_events xs @ teardown_events ys"
  by (induction xs rule: teardown_events.induct) auto

lemma lifecycle_append:
  "lifecycle p (xs @ ys) = (case lifecycle p xs of None \<Rightarrow> None | Some q \<Rightarrow> lifecycle q ys)"
  by (induction p xs rule: lifecycle.induct) auto

lemma phase_of_Unregistered [simp]: "phase_of pc = Unregistered \<longleftrightarrow> pc = Returned"
  by (cases pc) auto

lemma parked_phase [simp]: "parked pc \<Longrightarrow> phase_of pc = Registered"
  by (cases pc) auto

lemma phase_of_replace_ctx [simp]: "phase_of (replace_ctx c pc) = phase_of pc"
  by (simp add: replace_ctx_def)

lemma replace_ctx_Returned [simp]: "replace_ctx c pc = Returned \<longleftrightarrow> pc = Returned"
  by (simp add: replace_ctx_def)

lemma phase_map_replace_ctx [simp]: "phase (map (replace_ctx c) cs) = phase cs"
  by (simp add: phase_def last_map)

lemma map_replace_ctx_returned:
  "\<forall>i < length cs. cs ! i = Returned \<Longrightarrow> map (replace_ctx c) cs = cs"
  by (simp add: list_eq_iff_nth_eq replace_ctx_def)

lemma phase_snoc [simp]: "phase (cs @ [pc]) = phase_of pc"
  by (simp add: phase_def)

lemma phase_update_last: "Suc i = length cs \<Longrightarrow> phase (cs[i := pc]) = phase_of pc"
  by (cases cs rule: rev_cases) (auto simp: phase_def)

lemma phase_nth_last: "Suc i = length cs \<Longrightarrow> phase cs = phase_of (cs ! i)"
  by (cases cs rule: rev_cases) (auto simp: phase_def)

lemma all_returned:
  assumes "\<forall>i. Suc i < length cs \<longrightarrow> cs ! i = Returned" "phase cs = Unregistered" "i < length cs"
  shows "cs ! i = Returned"
proof (cases "Suc i = length cs")
  case True
  then have "phase cs = phase_of (cs ! i)" by (rule phase_nth_last)
  with assms(2) show ?thesis by simp
next
  case False
  with assms(1,3) show ?thesis by (simp add: Suc_lessI)
qed

lemma live_is_last:
  "inv_pcs cf w \<Longrightarrow> i < length (consumers w) \<Longrightarrow> consumers w ! i \<noteq> Returned \<Longrightarrow>
   Suc i = length (consumers w)"
  unfolding inv_pcs_def by (metis Suc_lessI)

lemma live_phase:
  "inv_pcs cf w \<Longrightarrow> i < length (consumers w) \<Longrightarrow> consumers w ! i \<noteq> Returned \<Longrightarrow>
   phase (consumers w) = phase_of (consumers w ! i)"
  by (rule phase_nth_last) (rule live_is_last)

lemma registered_facts:
  assumes "inv_pcs cf w" "registry w \<noteq> []"
  shows "phase (consumers w) = Registered \<and>
         (\<exists>a. listener w = Some a \<and> \<not> closed (chans w a) \<and> registry w = expected_reg cf a)"
  using assms unfolding inv_pcs_def by (cases "phase (consumers w)") auto

subsection \<open>Preservation of the structural invariant\<close>

lemma pcs_newctx:
  "inv_pcs cf w \<Longrightarrow>
   inv_pcs cf (w\<lparr>has_ctx := True, cancelled := False,
                 consumers := map (replace_ctx c) (consumers w)\<rparr>)"
  unfolding inv_pcs_def by auto

lemma pcs_listen: "inv_pcs cf w \<Longrightarrow> inv_pcs cf (listenForSyncNotifications cf accept w)"
  unfolding inv_pcs_def listenForSyncNotifications_def AddNotificationListener_def
  by (cases "listener w")
     (auto simp: Let_def make_chan_def expected_reg_def nth_append less_Suc_eq all_returned lifecycle_append)

lemma pcs_NavigateTo: "inv_pcs cf w \<Longrightarrow> inv_pcs cf (OnNavigatedTo cf accept w)"
  unfolding OnNavigatedTo_def by (intro pcs_listen pcs_newctx)

lemma pcs_NavigateFrom: "inv_pcs cf w \<Longrightarrow> inv_pcs cf (OnNavigatedFrom w)"
  unfolding inv_pcs_def OnNavigatedFrom_def by (simp add: lifecycle_append)

lemma pcs_update:
  assumes "inv_pcs cf w" "Suc i = length (consumers w)"
    and "phase_of pc = phase (consumers w)"
  shows "inv_pcs cf (w\<lparr>consumers := (consumers w)[i := pc]\<rparr>)"
  using assms unfolding inv_pcs_def by (auto simp: lifecycle_append phase_update_last)

lemma pcs_select_recv:
  assumes "inv_pcs cf w" "i < length (consumers w)" "parked (consumers w ! i)"
    "select_recv i w = Some w'"
  shows "inv_pcs cf w'"
proof -
  from assms(3) have nr: "consumers w ! i \<noteq> Returned" by auto
  have last: "Suc i = length (consumers w)"
    using assms(1,2) nr by (rule live_is_last)
  then have ph: "phase (consumers w) = Registered"
    using assms(3) by (simp add: phase_nth_last)
  show ?thesis
    using assms(1,4) ph last unfolding inv_pcs_def select_recv_def chan_recv_def
    by (auto simp: lifecycle_append phase_update_last split: option.splits list.splits if_splits)
qed

lemma pcs_select_cancel:
  assumes "inv_pcs cf w" "i < length (consumers w)" "parked (consumers w ! i)"
    "select_cancel i w = Some w'"
  shows "inv_pcs cf w'"
proof -
  from assms(3) have nr: "consumers w ! i \<noteq> Returned" by auto
  have last: "Suc i = length (consumers w)"
    using assms(1,2) nr by (rule live_is_last)
  then have ph: "phase (consumers w) = Registered"
    using assms(3) by (simp add: phase_nth_last)
  show ?thesis
    using assms(1,4) ph last unfolding inv_pcs_def select_cancel_def
    by (auto simp: lifecycle_append phase_update_last split: option.splits if_splits)
qed

lemma pcs_enter_select:
  assumes "inv_pcs cf w" "i < length (consumers w)" "consumers w ! i = LoopHead"
  shows "inv_pcs cf (enter_select i w)"
proof -
  have last: "Suc i = length (consumers w)"
    using assms by (intro live_is_last) auto
  then have ph: "phase (consumers w) = Registered"
    using assms(3) by (simp add: phase_nth_last)
  show ?thesis
    using assms(1) ph last unfolding inv_pcs_def enter_select_def
    by (auto simp: phase_update_last split: option.splits)
qed

lemma pcs_handler_done:
  assumes "inv_pcs cf w" "i < length (consumers w)" "consumers w ! i = Handling v"
  shows "inv_pcs cf (handler_done i w)"
proof -
  have last: "Suc i = length (consumers w)"
    using assms by (intro live_is_last) auto
  then have ph: "phase (consumers w) = Registered"
    using assms(3) by (simp add: phase_nth_last)
  show ?thesis
    using assms(1) ph last unfolding handler_done_def by (intro pcs_update) auto
qed

lemma pcs_teardown_remove:
  assumes "inv_pcs cf w" "i < length (consumers w)" "consumers w ! i = TdRemove"
    "teardown_remove cf i w = Some w'"
  shows "inv_pcs cf w'"
proof -
  have last: "Suc i = length (consumers w)"
    using assms by (intro live_is_last) auto
  then have ph: "phase (consumers w) = Registered"
    using assms(3) by (simp add: phase_nth_last)
  show ?thesis
    using assms(1,4) ph last
    unfolding inv_pcs_def teardown_remove_def RemoveNotificationListener_def
    by (auto simp: lifecycle_append phase_update_last expected_reg_def split: if_splits)
qed

lemma pcs_teardown_close:
  assumes "inv_pcs cf w" "i < length (consumers w)" "consumers w ! i = TdClose"
    "teardown_close i w = Some w'"
  shows "inv_pcs cf w'"
proof -
  have last: "Suc i = length (consumers w)"
    using assms by (intro live_is_last) auto
  then have ph: "phase (consumers w) = Removed"
    using assms(3) by (simp add: phase_nth_last)
  show ?thesis
    using assms(1,4) ph last unfolding inv_pcs_def teardown_close_def chan_close_def
    by (auto simp: lifecycle_append phase_update_last split: option.splits if_splits)
qed

lemma pcs_teardown_clear:
  assumes "inv_pcs cf w" "i < length (consumers w)" "consumers w ! i = TdClear"
  shows "inv_pcs cf (teardown_clear i w)"
proof -
  have last: "Suc i = length (consumers w)"
    using assms by (intro live_is_last) auto
  then have ph: "phase (consumers w) = Closed"
    using assms(3) by (simp add: phase_nth_last)
  show ?thesis
    using assms(1) ph last unfolding inv_pcs_def teardown_clear_def
    by (auto simp: lifecycle_append phase_update_last)
qed

lemma pcs_engine_call:
  "inv_pcs cf w \<Longrightarrow> engine_call k n w = Some w' \<Longrightarrow> inv_pcs cf w'"
  unfolding inv_pcs_def engine_call_def
  by (auto split: if_splits regobj.splits option.splits)

lemma pcs_engine_send:
  "inv_pcs cf w \<Longrightarrow> engine_send j w = Some w' \<Longrightarrow> inv_pcs cf w'"
  unfolding inv_pcs_def engine_send_def chan_send_def
  by (auto simp: lifecycle_append split: if_splits prod.splits)

lemma rendezvous_eq:
  assumes "rendezvous j i w = Some w'"
  obtains a n where "j < length (sending w)" "i < length (consumers w)"
    "parked (consumers w ! i)" "sending w ! j = (a, n)" "listener w = Some a"
    "cap (chans w a) = 0" "buf (chans w a) = []" "\<not> closed (chans w a)"
    "w' = w\<lparr>consumers := (consumers w)[i := Handling (Some n)],
            sending := take j (sending w) @ drop (Suc j) (sending w),
            trace := trace w @ [EvEnq a n, EvDispatch a (Some n)]\<rparr>"
  using assms unfolding rendezvous_def
  by (cases "sending w ! j") (auto split: if_splits)

lemma pcs_rendezvous:
  assumes "inv_pcs cf w" "rendezvous j i w = Some w'"
  shows "inv_pcs cf w'"
proof -
  from assms(2) obtain a n where i: "i < length (consumers w)" "parked (consumers w ! i)"
    and w': "w' = w\<lparr>consumers := (consumers w)[i := Handling (Some n)],
            sending := take j (sending w) @ drop (Suc j) (sending w),
            trace := trace w @ [EvEnq a n, EvDispatch a (Some n)]\<rparr>"
    by (rule rendezvous_eq)
  from i(2) have nr: "consumers w ! i \<noteq> Returned" by auto
  have last: "Suc i = length (consumers w)"
    using assms(1) i(1) nr by (rule live_is_last)
  then have ph: "phase (consumers w) = Registered"
    using i(2) by (simp add: phase_nth_last)
  show ?thesis
    using assms(1) ph last unfolding inv_pcs_def w'
    by (auto simp: lifecycle_append phase_update_last)
qed

lemma step_pcs:
  assumes "step cf act w = Some w'" "inv_pcs cf w"
  shows "inv_pcs cf w'"
proof (cases act)
  case (NavigateTo accept)
  with assms show ?thesis by (auto simp: step_def pcs_NavigateTo split: if_splits)
next
  case NavigateFrom
  with assms show ?thesis by (auto simp: step_def pcs_NavigateFrom split: if_splits)
next
  case (SelectRecv i)
  with assms show ?thesis by (auto simp: step_def split: if_splits intro: pcs_select_recv)
next
  case (SelectCancel i)
  with assms show ?thesis by (auto simp: step_def split: if_splits intro: pcs_select_cancel)
next
  case (Proceed i)
  with assms show ?thesis
    by (auto simp: step_def split: if_splits gpc.splits
        intro: pcs_enter_select pcs_handler_done pcs_teardown_remove pcs_teardown_close
          pcs_teardown_clear)
next
  case (EngineCall k n)
  with assms show ?thesis by (auto simp: step_def split: if_splits intro: pcs_engine_call)
next
  case (EngineSend j)
  with assms show ?thesis by (auto simp: step_def split: if_splits intro: pcs_engine_send)
next
  case (Rendezvous j i)
  with assms show ?thesis by (auto simp: step_def split: if_splits intro: pcs_rendezvous)
qed

lemma live_open:
  assumes "inv_pcs cf w" "i < length (consumers w)"
    "phase_of (consumers w ! i) = Registered \<or> phase_of (consumers w ! i) = Removed"
  shows "\<exists>a. listener w = Some a \<and> \<not> closed (chans w a)"
proof -
  from assms(3) have "consumers w ! i \<noteq> Returned" by auto
  with assms have "phase (consumers w) = phase_of (consumers w ! i)"
    by (intro live_phase)
  with assms(1,3) show ?thesis unfolding inv_pcs_def by auto
qed

lemma registry_target:
  assumes "inv_pcs cf w" "k < length (registry w)"
  shows "\<exists>a. listener w = Some a \<and> \<not> closed (chans w a) \<and>
              (snd (registry w ! k) = RegPage \<or> snd (registry w ! k) = RegListener a)"
proof -
  from assms(2) have "registry w \<noteq> []" by auto
  with assms(1) obtain a where a: "listener w = Some a" "\<not> closed (chans w a)"
    "registry w = expected_reg cf a"
    using registered_facts by blast
  with assms(2) have "k = 0" by (simp add: expected_reg_def)
  with a show ?thesis by (auto simp: expected_reg_def)
qed

lemma alloc_listen:
  "inv_alloc w \<Longrightarrow> has_ctx w \<Longrightarrow> inv_alloc (listenForSyncNotifications cf accept w)"
  unfolding inv_alloc_def listenForSyncNotifications_def AddNotificationListener_def
  by (cases "listener w") (auto simp: Let_def make_chan_def less_Suc_eq)

lemma alloc_NavigateTo: "inv_alloc w \<Longrightarrow> inv_alloc (OnNavigatedTo cf accept w)"
  unfolding OnNavigatedTo_def
  by (rule alloc_listen) (simp_all add: inv_alloc_def)

lemma nth_pair_mem: "xs ! j = (a, n) \<Longrightarrow> j < length xs \<Longrightarrow> (a, n) \<in> set xs"
  by (metis nth_mem)

lemma alloc_engine_send: "inv_alloc w \<Longrightarrow> \<forall>w'. engine_send j w = Some w' \<longrightarrow> inv_alloc w'"
  unfolding inv_alloc_def engine_send_def chan_send_def
  by (auto split: if_splits prod.splits dest!: nth_pair_mem)
     (blast dest: in_set_takeD in_set_dropD)+

lemma alloc_rendezvous:
  assumes "inv_alloc w" "rendezvous j i w = Some w'"
  shows "inv_alloc w'"
proof -
  from assms(2) obtain a n where l: "listener w = Some a"
    and w': "w' = w\<lparr>consumers := (consumers w)[i := Handling (Some n)],
            sending := take j (sending w) @ drop (Suc j) (sending w),
            trace := trace w @ [EvEnq a n, EvDispatch a (Some n)]\<rparr>"
    by (rule rendezvous_eq)
  from assms(1) l have a: "a < next_addr w" by (simp add: inv_alloc_def)
  have sub: "(b, m) \<in> set (take j (sending w) @ drop (Suc j) (sending w)) \<Longrightarrow>
      b < next_addr w" for b m
    using assms(1) by (auto simp: inv_alloc_def) (blast dest: in_set_takeD in_set_dropD)+
  from assms(1) a sub show ?thesis
    unfolding w' inv_alloc_def by auto
qed

lemma alloc_engine_call:
  assumes "inv_pcs cf w" "inv_alloc w"
  shows "\<forall>w'. engine_call k n w = Some w' \<longrightarrow> inv_alloc w'"
proof (cases "k < length (registry w)")
  case True
  from registry_target[OF assms(1) True] obtain a where
    "listener w = Some a" "snd (registry w ! k) = RegPage \<or> snd (registry w ! k) = RegListener a"
    by blast
  with assms(2) True show ?thesis
    by (auto simp: engine_call_def inv_alloc_def) blast+
next
  case False
  then show ?thesis by (simp add: engine_call_def)
qed

lemma step_alloc:
  assumes "inv_pcs cf w" "inv_alloc w"
  shows "\<forall>w'. step cf act w = Some w' \<longrightarrow> inv_alloc w'"
proof (cases act)
  case (NavigateTo accept)
  with assms show ?thesis by (auto simp: step_def alloc_NavigateTo split: if_splits)
next
  case NavigateFrom
  with assms show ?thesis by (auto simp: step_def OnNavigatedFrom_def inv_alloc_def split: if_splits)
next
  case (SelectRecv i)
  with assms show ?thesis
    by (auto simp: step_def select_recv_def chan_recv_def inv_alloc_def
        split: if_splits option.splits list.splits)
next
  case (SelectCancel i)
  with assms show ?thesis
    by (auto simp: step_def select_cancel_def inv_alloc_def split: if_splits option.splits)
next
  case (Proceed i)
  with assms show ?thesis
    by (auto simp: step_def enter_select_def handler_done_def teardown_remove_def
        teardown_close_def chan_close_def teardown_clear_def inv_alloc_def
        split: if_splits gpc.splits option.splits)
next
  case (EngineCall k n)
  with assms alloc_engine_call[of cf w k n] show ?thesis
    by (auto simp: step_def split: if_splits)
next
  case (EngineSend j)
  with assms alloc_engine_send[of w j] show ?thesis by (auto simp: step_def split: if_splits)
next
  case (Rendezvous j i)
  with assms show ?thesis by (auto simp: step_def split: if_splits intro: alloc_rendezvous)
qed

subsection \<open>Preservation of the queue invariant\<close>

lemma fifo_listen:
  "inv_alloc w \<Longrightarrow> inv_fifo w \<Longrightarrow> inv_fifo (listenForSyncNotifications cf accept w)"
  unfolding inv_alloc_def inv_fifo_def listenForSyncNotifications_def
    AddNotificationListener_def
  by (cases "listener w") (auto simp: Let_def make_chan_def)

lemma fifo_NavigateTo: "inv_alloc w \<Longrightarrow> inv_fifo w \<Longrightarrow> inv_fifo (OnNavigatedTo cf accept w)"
  unfolding OnNavigatedTo_def
  by (rule fifo_listen) (simp_all add: inv_alloc_def inv_fifo_def)

lemma fifo_select_recv:
  assumes "inv_pcs cf w" "inv_fifo w" "i < length (consumers w)" "parked (consumers w ! i)"
  shows "\<forall>w'. select_recv i w = Some w' \<longrightarrow> inv_fifo w'"
proof -
  from live_open[OF assms(1,3)] assms(4) obtain a where
    a: "listener w = Some a" "\<not> closed (chans w a)" by auto
  show ?thesis
  proof (cases "buf (chans w a)")
    case Nil
    with a show ?thesis by (simp add: select_recv_def chan_recv_def)
  next
    case (Cons v vs)
    have "dispatched b (trace w) @ map Some (buf (chans w b)) = map Some (enqueued b (trace w))"
      for b using assms(2) by (simp add: inv_fifo_def)
    note fifo = this
    from fifo[of a] Cons
    have "dispatched a (trace w) @ Some v # map Some vs = map Some (enqueued a (trace w))"
      by simp
    with a Cons fifo show ?thesis
      by (simp add: select_recv_def chan_recv_def inv_fifo_def)
  qed
qed

lemma fifo_engine_send: "inv_fifo w \<Longrightarrow> \<forall>w'. engine_send j w = Some w' \<longrightarrow> inv_fifo w'"
  unfolding inv_fifo_def engine_send_def chan_send_def
  by (auto split: if_splits prod.splits)

lemma fifo_rendezvous:
  assumes "inv_fifo w" "rendezvous j i w = Some w'"
  shows "inv_fifo w'"
proof -
  from assms(2) obtain a n where b: "buf (chans w a) = []"
    and w': "w' = w\<lparr>consumers := (consumers w)[i := Handling (Some n)],
            sending := take j (sending w) @ drop (Suc j) (sending w),
            trace := trace w @ [EvEnq a n, EvDispatch a (Some n)]\<rparr>"
    by (rule rendezvous_eq)
  have fifo: "dispatched c (trace w) @ map Some (buf (chans w c)) = map Some (enqueued c (trace w))"
    for c using assms(1) by (simp add: inv_fifo_def)
  from fifo[of a] b have "dispatched a (trace w) = map Some (enqueued a (trace w))" by simp
  with fifo b show ?thesis
    unfolding w' inv_fifo_def by simp
qed

lemma step_fifo:
  assumes "inv_pcs cf w" "inv_alloc w" "inv_fifo w"
  shows "\<forall>w'. step cf act w = Some w' \<longrightarrow> inv_fifo w'"
proof (cases act)
  case (NavigateTo accept)
  with assms show ?thesis by (auto simp: step_def fifo_NavigateTo split: if_splits)
next
  case NavigateFrom
  with assms show ?thesis by (auto simp: step_def OnNavigatedFrom_def inv_fifo_def split: if_splits)
next
  case (SelectRecv i)
  with assms fifo_select_recv[of cf w i] show ?thesis
    by (auto simp: step_def split: if_splits)
next
  case (SelectCancel i)
  with assms show ?thesis
    by (auto simp: step_def select_cancel_def inv_fifo_def split: if_splits option.splits)
next
  case (Proceed i)
  with assms show ?thesis
    by (auto simp: step_def enter_select_def handler_done_def teardown_remove_def
        teardown_close_def chan_close_def teardown_clear_def inv_fifo_def
        split: if_splits gpc.splits option.splits)
next
  case (EngineCall k n)
  with assms show ?thesis
    by (auto simp: step_def engine_call_def inv_fifo_def
        split: if_splits regobj.splits option.splits)
next
  case (EngineSend j)
  with assms fifo_engine_send[of w j] show ?thesis by (auto simp: step_def split: if_splits)
next
  case (Rendezvous j i)
  with assms show ?thesis by (auto simp: step_def split: if_splits intro: fifo_rendezvous)
qed

subsection \<open>No panic on the consumer side\<close>

lemma live_pc_phase:
  "pc \<noteq> Returned \<Longrightarrow> pc \<noteq> TdClear \<Longrightarrow> phase_of pc = Registered \<or> phase_of pc = Removed"
  by (cases pc) auto

lemma step_panic:
  assumes "inv_pcs cf w"
  shows "\<forall>w'. step cf act w = Some w' \<longrightarrow> inv_panic w'"
proof (cases act)
  case (NavigateTo accept)
  then show ?thesis
    by (auto simp: step_def OnNavigatedTo_def listenForSyncNotifications_def
        AddNotificationListener_def Let_def inv_panic_def split: if_splits)
next
  case NavigateFrom
  then show ?thesis by (auto simp: step_def OnNavigatedFrom_def inv_panic_def split: if_splits)
next
  case (SelectRecv i)
  show ?thesis
  proof (cases "i < length (consumers w) \<and> parked (consumers w ! i)")
    case True
    with live_open[OF assms, of i] obtain a where "listener w = Some a" by auto
    with SelectRecv show ?thesis
      by (auto simp: step_def select_recv_def chan_recv_def inv_panic_def
          split: if_splits list.splits)
  next
    case False
    with SelectRecv show ?thesis by (auto simp: step_def)
  qed
next
  case (SelectCancel i)
  show ?thesis
  proof (cases "i < length (consumers w) \<and> parked (consumers w ! i)")
    case True
    with live_open[OF assms, of i] obtain a where "listener w = Some a" by auto
    with SelectCancel show ?thesis
      by (auto simp: step_def select_cancel_def inv_panic_def split: if_splits)
  next
    case False
    with SelectCancel show ?thesis by (auto simp: step_def)
  qed
next
  case (Proceed i)
  show ?thesis
  proof (cases "i < length (consumers w) \<and> consumers w ! i \<noteq> Returned \<and>
      consumers w ! i \<noteq> TdClear")
    case True
    with live_open[OF assms, of i] live_pc_phase[of "consumers w ! i"]
    obtain a where "listener w = Some a" "\<not> closed (chans w a)"
      by auto
    with Proceed True show ?thesis
      by (auto simp: step_def enter_select_def handler_done_def teardown_remove_def
          teardown_close_def chan_close_def inv_panic_def split: if_splits gpc.splits)
  next
    case False
    with Proceed show ?thesis
      by (auto simp: step_def teardown_clear_def inv_panic_def split: if_splits gpc.splits)
  qed
next
  case (EngineCall k n)
  show ?thesis
  proof (cases "k < length (registry w)")
    case True
    from registry_target[OF assms True] obtain a where "listener w = Some a" by blast
    with EngineCall show ?thesis
      by (auto simp: step_def engine_call_def inv_panic_def split: if_splits regobj.splits)
  next
    case False
    with EngineCall show ?thesis by (auto simp: step_def engine_call_def)
  qed
next
  case (EngineSend j)
  then show ?thesis
    by (auto simp: step_def engine_send_def chan_send_def inv_panic_def
        split: if_splits prod.splits)
next
  case (Rendezvous j i)
  then show ?thesis
    by (auto simp: step_def inv_panic_def split: if_splits elim!: rendezvous_eq)
qed

subsection \<open>Engines that wait for running callbacks\<close>

lemma waits_listen:
  "inv_pcs cf w \<Longrightarrow> inv_waits w \<Longrightarrow> inv_waits (listenForSyncNotifications cf accept w)"
  unfolding inv_pcs_def inv_waits_def listenForSyncNotifications_def
    AddNotificationListener_def
  by (cases "listener w") (auto simp: Let_def)

lemma waits_NavigateTo:
  "inv_pcs cf w \<Longrightarrow> inv_waits w \<Longrightarrow> inv_waits (OnNavigatedTo cf accept w)"
  unfolding OnNavigatedTo_def
  by (rule waits_listen) (simp_all add: pcs_newctx inv_waits_def)

lemma waits_engine_call:
  assumes "inv_pcs cf w" "inv_waits w"
  shows "\<forall>w'. engine_call k n w = Some w' \<longrightarrow> inv_waits w'"
proof (cases "k < length (registry w)")
  case True
  then have "registry w \<noteq> []" by auto
  from registered_facts[OF assms(1) this] have ph: "phase (consumers w) = Registered" by simp
  from registry_target[OF assms(1) True] obtain a where
    "listener w = Some a" "snd (registry w ! k) = RegPage \<or> snd (registry w ! k) = RegListener a"
    by blast
  with assms(2) True ph show ?thesis
    by (auto simp: engine_call_def inv_waits_def) blast+
next
  case False
  then show ?thesis by (simp add: engine_call_def)
qed

lemma waits_engine_send:
  assumes "inv_pcs cf w" "inv_waits w"
  shows "\<forall>w'. engine_send j w = Some w' \<longrightarrow> inv_waits w'"
proof (cases "j < length (sending w)")
  case True
  obtain a n where an: "sending w ! j = (a, n)" by (cases "sending w ! j")
  from an True have mem: "(a, n) \<in> set (sending w)" by (rule nth_pair_mem)
  with assms(2) have l: "listener w = Some a" and ph: "phase (consumers w) = Registered"
    by (auto simp: inv_waits_def)
  with assms(1) have "\<not> closed (chans w a)" by (auto simp: inv_pcs_def)
  with assms(2) True an l ph show ?thesis
    by (auto simp: engine_send_def chan_send_def inv_waits_def)
       (blast dest: in_set_takeD in_set_dropD)+
next
  case False
  then show ?thesis by (simp add: engine_send_def)
qed

lemma waits_rendezvous:
  assumes "inv_pcs cf w" "inv_waits w" "rendezvous j i w = Some w'"
  shows "inv_waits w'"
proof -
  from assms(3) obtain a n where i: "i < length (consumers w)" "parked (consumers w ! i)"
    and j: "j < length (sending w)"
    and w': "w' = w\<lparr>consumers := (consumers w)[i := Handling (Some n)],
            sending := take j (sending w) @ drop (Suc j) (sending w),
            trace := trace w @ [EvEnq a n, EvDispatch a (Some n)]\<rparr>"
    by (rule rendezvous_eq)
  from i(2) have nr: "consumers w ! i \<noteq> Returned" by auto
  have last: "Suc i = length (consumers w)"
    using assms(1) i(1) nr by (rule live_is_last)
  have sub: "(b, m) \<in> set (take j (sending w) @ drop (Suc j) (sending w)) \<Longrightarrow>
      listener w = Some b" for b m
    using assms(2) by (auto simp: inv_waits_def) (blast dest: in_set_takeD in_set_dropD)+
  from assms(2) last sub show ?thesis
    unfolding w' inv_waits_def by (auto simp: phase_update_last)
qed

lemma waits_consumer:
  assumes "inv_pcs cf w" "inv_waits w" "i < length (consumers w)" "consumers w ! i \<noteq> Returned"
    and "phase_of pc = Registered \<or> phase_of (consumers w ! i) \<noteq> Registered \<or> sending w = []"
    and "consumers w' = (consumers w)[i := pc]" "sending w' = sending w"
    and "panicked w' = None"
    and "listener w' = listener w \<or> phase_of (consumers w ! i) \<noteq> Registered"
  shows "inv_waits w'"
proof -
  have last: "Suc i = length (consumers w)"
    using assms by (intro live_is_last) auto
  then have ph: "phase (consumers w) = phase_of (consumers w ! i)"
    by (rule phase_nth_last)
  have idle: "sending w = []" if "phase_of (consumers w ! i) \<noteq> Registered"
    using that ph assms(2) by (auto simp: inv_waits_def)
  show ?thesis
    unfolding inv_waits_def
  proof (intro conjI allI impI)
    assume "sending w' \<noteq> []"
    with assms(7) have "sending w \<noteq> []" by simp
    with assms(5) idle have "phase_of pc = Registered" by blast
    with assms(6) last show "phase (consumers w') = Registered"
      by (simp add: phase_update_last)
  next
    fix a n assume "(a, n) \<in> set (sending w')"
    with assms(7) have mem: "(a, n) \<in> set (sending w)" by simp
    then have "sending w \<noteq> []" by auto
    with idle have "phase_of (consumers w ! i) = Registered" by blast
    with assms(9) have "listener w' = listener w" by simp
    with mem assms(2) show "listener w' = Some a" by (auto simp: inv_waits_def)
  next
    show "panicked w' = None" by (rule assms(8))
  qed
qed

lemma step_waits:
  assumes "inv_pcs cf w" "inv_waits w" "engine_waits cf"
  shows "\<forall>w'. step cf act w = Some w' \<longrightarrow> inv_waits w'"
proof (intro allI impI)
  fix w' assume st: "step cf act w = Some w'"
  then have np: "panicked w = None" by (auto simp: step_def split: if_splits)
  show "inv_waits w'"
  proof (cases act)
    case (NavigateTo accept)
    with assms st show ?thesis by (auto simp: step_def waits_NavigateTo split: if_splits)
  next
    case NavigateFrom
    with st have "sending w' = sending w" "consumers w' = consumers w"
      "listener w' = listener w" "panicked w' = None"
      by (auto simp: step_def OnNavigatedFrom_def split: if_splits)
    with assms(2) show ?thesis by (simp add: inv_waits_def)
  next
    case (SelectRecv i)
    with st have i: "i < length (consumers w)" "parked (consumers w ! i)"
      and sr: "select_recv i w = Some w'"
      by (auto simp: step_def split: if_splits)
    from i(2) have nr: "consumers w ! i \<noteq> Returned" by auto
    from live_open[OF assms(1) i(1)] i(2) obtain a where
      a: "listener w = Some a" "\<not> closed (chans w a)" by auto
    from sr a np obtain v where
      "consumers w' = (consumers w)[i := Handling v]" "sending w' = sending w"
      "panicked w' = None" "listener w' = listener w"
      by (auto simp: select_recv_def chan_recv_def split: list.splits)
    with assms(1,2) i nr show ?thesis
      by (intro waits_consumer[where cf = cf and w = w and i = i and pc = "Handling v" and w' = w'])
         simp_all
  next
    case (SelectCancel i)
    with st have i: "i < length (consumers w)" "parked (consumers w ! i)"
      and sc: "select_cancel i w = Some w'"
      by (auto simp: step_def split: if_splits)
    from i(2) have nr: "consumers w ! i \<noteq> Returned" by auto
    from live_open[OF assms(1) i(1)] i(2) obtain a where
      a: "listener w = Some a" by auto
    from sc a np have
      "consumers w' = (consumers w)[i := TdRemove]" "sending w' = sending w"
      "panicked w' = None" "listener w' = listener w"
      by (auto simp: select_cancel_def split: if_splits)
    with assms(1,2) i nr show ?thesis
      by (intro waits_consumer[where cf = cf and w = w and i = i and pc = TdRemove and w' = w'])
         simp_all
  next
    case (Proceed i)
    with st have i: "i < length (consumers w)"
      by (auto simp: step_def split: if_splits)
    show ?thesis
    proof (cases "consumers w ! i")
      case LoopHead
      from live_open[OF assms(1) i] LoopHead obtain a where
        a: "listener w = Some a" by auto
      with LoopHead Proceed i st np have
        "consumers w' = (consumers w)[i := AtSelect]" "sending w' = sending w"
        "panicked w' = None" "listener w' = listener w"
        by (auto simp: step_def enter_select_def split: if_splits)
      with assms(1,2) i LoopHead show ?thesis
        by (intro waits_consumer[where cf = cf and w = w and i = i and pc = AtSelect and w' = w'])
           simp_all
    next
      case AtSelect
      with Proceed i st show ?thesis by (simp add: step_def split: if_splits)
    next
      case (AtSelectOld c)
      with Proceed i st show ?thesis by (simp add: step_def split: if_splits)
    next
      case (Handling v)
      with Proceed i st np have
        "consumers w' = (consumers w)[i := LoopHead]" "sending w' = sending w"
        "panicked w' = None" "listener w' = listener w"
        by (auto simp: step_def handler_done_def split: if_splits)
      with assms(1,2) i Handling show ?thesis
        by (intro waits_consumer[where cf = cf and w = w and i = i and pc = LoopHead and w' = w'])
           simp_all
    next
      case TdRemove
      with Proceed i st np assms(3) have
        "consumers w' = (consumers w)[i := TdClose]" "sending w' = sending w"
        "panicked w' = None" "listener w' = listener w" "sending w = []"
        by (auto simp: step_def teardown_remove_def split: if_splits)
      with assms(1,2) i TdRemove show ?thesis
        by (intro waits_consumer[where cf = cf and w = w and i = i and pc = TdClose and w' = w'])
           simp_all
    next
      case TdClose
      from live_open[OF assms(1) i] TdClose obtain a where
        a: "listener w = Some a" "\<not> closed (chans w a)" by auto
      with TdClose Proceed i st np have
        "consumers w' = (consumers w)[i := TdClear]" "sending w' = sending w"
        "panicked w' = None" "listener w' = listener w"
        by (auto simp: step_def teardown_close_def chan_close_def split: if_splits)
      with assms(1,2) i TdClose show ?thesis
        by (intro waits_consumer[where cf = cf and w = w and i = i and pc = TdClear and w' = w'])
           simp_all
    next
      case TdClear
      with Proceed i st np have
        "consumers w' = (consumers w)[i := Returned]" "sending w' = sending w"
        "panicked w' = None"
        by (auto simp: step_def teardown_clear_def split: if_splits)
      with assms(1,2) i TdClear show ?thesis
        by (intro waits_consumer[where cf = cf and w = w and i = i and pc = Returned and w' = w'])
           simp_all
    next
      case Returned
      with Proceed i st show ?thesis by (simp add: step_def split: if_splits)
    qed
  next
    case (EngineCall k n)
    with assms st waits_engine_call[of cf w k n] show ?thesis
      by (auto simp: step_def split: if_splits)
  next
    case (EngineSend j)
    with assms st waits_engine_send[of cf w j] show ?thesis
      by (auto simp: step_def split: if_splits)
  next
    case (Rendezvous j i)
    with assms st show ?thesis
      by (auto simp: step_def split: if_splits intro: waits_rendezvous)
  qed
qed

lemma inv_new_page: "inv cf new_page"
  by (simp add: inv_def inv_pcs_def inv_alloc_def inv_fifo_def inv_panic_def inv_waits_def
      new_page_def phase_def make_chan_def)

lemma step_inv:
  assumes "inv cf w" "step cf act w = Some w'"
  shows "inv cf w'"
  using assms step_pcs[of cf act w w'] step_alloc[of cf w act] step_fifo[of cf w act]
    step_panic[of cf w act] step_waits[of cf w act]
  unfolding inv_def by blast

lemma run_inv: "inv cf w \<Longrightarrow> run cf acts w = Some w' \<Longrightarrow> inv cf w'"
proof (induction acts arbitrary: w)
  case Nil
  then show ?case by simp
next
  case (Cons act acts)
  then show ?case by (auto split: option.splits dest: step_inv)
qed

lemma reachable_inv: "run cf acts new_page = Some w \<Longrightarrow> inv cf w"
  using inv_new_page by (rule run_inv)

section \<open>Consequences for reachable states\<close>

lemma filter_expected_reg [simp]:
  "RemoveNotificationListener (page_id cf) (expected_reg cf a) = []"
  by (simp add: RemoveNotificationListener_def expected_reg_def)

lemma live_facts:
  assumes "inv cf w" "i < length (consumers w)" "phase_of (consumers w ! i) = Registered"
  shows "\<exists>a. listener w = Some a \<and> \<not> closed (chans w a) \<and> registry w = expected_reg cf a \<and>
             has_ctx w"
proof -
  from assms(1) have pcs: "inv_pcs cf w" and al: "inv_alloc w" by (auto simp: inv_def)
  from assms(3) have "consumers w ! i \<noteq> Returned" by auto
  with pcs assms(2) have "phase (consumers w) = phase_of (consumers w ! i)"
    by (intro live_phase)
  with pcs assms(3) obtain a where "listener w = Some a" "\<not> closed (chans w a)"
    "registry w = expected_reg cf a"
    by (auto simp: inv_pcs_def)
  with al show ?thesis by (auto simp: inv_alloc_def)
qed

subsection \<open>A closed channel stays closed and unread\<close>



subsection \<open>After a failed registration\<close>

lemma add_calls_append [simp]: "add_calls (xs @ ys) = add_calls xs + add_calls ys"
  by (induction xs rule: add_calls.induct) auto

lemma degraded_engine_send:
  assumes "degraded w0 w"
  shows "\<forall>w'. engine_send j w = Some w' \<longrightarrow> degraded w0 w'"
proof (cases "j < length (sending w)")
  case True
  obtain a n where an: "sending w ! j = (a, n)" by (cases "sending w ! j")
  from an True have "(a, n) \<in> set (sending w)" by (rule nth_pair_mem)
  with assms have na: "listener w0 \<noteq> Some a" by (auto simp: degraded_def)
  have sub: "(b, m) \<in> set (take j (sending w) @ drop (Suc j) (sending w)) \<Longrightarrow>
      listener w0 \<noteq> Some b" for b m
    using assms by (auto simp: degraded_def) (blast dest: in_set_takeD in_set_dropD)+
  from assms True an na sub show ?thesis
    by (auto simp: engine_send_def chan_send_def degraded_def)
next
  case False
  then show ?thesis by (simp add: engine_send_def)
qed

lemma degraded_step:
  assumes "degraded w0 w"
  shows "\<forall>w'. step cf act w = Some w' \<longrightarrow> degraded w0 w'"
proof (cases act)
  case (NavigateTo accept)
  from assms have "map (replace_ctx (cancelled w)) (consumers w) = consumers w"
    by (intro map_replace_ctx_returned) (simp add: degraded_def)
  with NavigateTo assms show ?thesis
    by (auto simp: step_def OnNavigatedTo_def listenForSyncNotifications_def degraded_def)
next
  case NavigateFrom
  with assms show ?thesis
    by (auto simp: step_def OnNavigatedFrom_def degraded_def)
next
  case (SelectRecv i)
  with assms show ?thesis by (auto simp: step_def degraded_def)
next
  case (SelectCancel i)
  with assms show ?thesis by (auto simp: step_def degraded_def)
next
  case (Proceed i)
  with assms show ?thesis by (auto simp: step_def degraded_def)
next
  case (EngineCall k n)
  with assms show ?thesis by (auto simp: step_def engine_call_def degraded_def)
next
  case (EngineSend j)
  with assms degraded_engine_send[of w0 w j] show ?thesis
    by (auto simp: step_def)
next
  case (Rendezvous j i)
  with assms show ?thesis by (auto simp: step_def rendezvous_def degraded_def)
qed

lemma degraded_run:
  "degraded w0 w \<Longrightarrow> run cf acts w = Some w' \<Longrightarrow> degraded w0 w'"
proof (induction acts arbitrary: w)
  case Nil
  then show ?case by simp
next
  case (Cons act acts)
  from Cons.prems(2) obtain w1 where s: "step cf act w = Some w1" and r: "run cf acts w1 = Some w'"
    by (auto split: option.splits)
  from degraded_step[OF Cons.prems(1)] s have "degraded w0 w1" by blast
  from Cons.IH[OF this r] show ?case .
qed

lemma idle_facts:
  assumes "inv cf w" "listener w = None"
  shows "registry w = []" "\<forall>i < length (consumers w). consumers w ! i = Returned"
    "map (replace_ctx c) (consumers w) = consumers w"
proof -
  from assms have ph: "phase (consumers w) = Unregistered" and reg: "registry w = []"
    and ret: "\<forall>i. Suc i < length (consumers w) \<longrightarrow> consumers w ! i = Returned"
    by (auto simp: inv_def inv_pcs_def)
  show "registry w = []" by (rule reg)
  show all: "\<forall>i < length (consumers w). consumers w ! i = Returned"
    using all_returned[OF ret ph] by blast
  then show "map (replace_ctx c) (consumers w) = consumers w"
    by (rule map_replace_ctx_returned)
qed

lemma failed_attach_eq:
  assumes "inv cf w" "listener w = None"
  shows "OnNavigatedTo cf False w =
     w\<lparr>has_ctx := True, cancelled := False, listener := Some (next_addr w),
       chans := (chans w)(next_addr w := make_chan (chan_cap cf)),
       next_addr := Suc (next_addr w),
       trace := trace w @ [EvAdd False, EvLogError]\<rparr>"
  using assms(2) idle_facts(1,3)[OF assms]
  by (simp add: OnNavigatedTo_def listenForSyncNotifications_def AddNotificationListener_def
      Let_def)

lemma failed_attach_degraded:
  assumes "inv cf w" "listener w = None"
  shows "degraded (OnNavigatedTo cf False w) (OnNavigatedTo cf False w)"
proof -
  note reg = idle_facts(1)[OF assms] and all = idle_facts(2)[OF assms]
  from assms have al: "\<forall>a n. (a, n) \<in> set (sending w) \<longrightarrow> a < next_addr w"
    and fresh: "enqueued (next_addr w) (trace w) = []"
    by (auto simp: inv_def inv_alloc_def)
  from al have ne: "(a, n) \<in> set (sending w) \<Longrightarrow> next_addr w \<noteq> a" for a n
    by blast
  show ?thesis
    unfolding failed_attach_eq[OF assms] degraded_def
    using reg all fresh ne by (simp add: make_chan_def)
qed

subsection \<open>Without a detach no consumer leaves its loop\<close>

lemma list_all_update:
  "list_all P xs \<Longrightarrow> P y \<Longrightarrow> list_all P (xs[i := y])"
  unfolding list_all_iff using set_update_subset_insert[of xs i y] by auto

lemma list_all_nth: "list_all P xs \<Longrightarrow> i < length xs \<Longrightarrow> P (xs ! i)"
  by (simp add: list_all_length)

lemma loop_step:
  assumes P1: "\<And>pc. P pc \<Longrightarrow> in_loop pc \<or> pc = Returned" and P2: "\<And>pc. in_loop pc \<Longrightarrow> P pc"
    and nc: "\<not> cancelled w" and all: "list_all P (consumers w)"
    and na: "act \<noteq> NavigateFrom" and st: "step cf act w = Some w'"
  shows "\<not> cancelled w' \<and> list_all P (consumers w') \<and>
         teardown_events (trace w') = teardown_events (trace w) \<and>
         (\<forall>a. closed (chans w' a) \<longrightarrow> closed (chans w a))"
proof (cases act)
  case (NavigateTo accept)
  have "P (replace_ctx False pc)" if "P pc" for pc
    using that P2[of "AtSelectOld False"] by (simp add: replace_ctx_def)
  with all have "list_all P (map (replace_ctx False) (consumers w))"
    by (simp add: list_all_iff)
  with NavigateTo st nc P2[of LoopHead] show ?thesis
    by (auto simp: step_def OnNavigatedTo_def listenForSyncNotifications_def
        AddNotificationListener_def Let_def make_chan_def split: if_splits)
next
  case NavigateFrom
  with na show ?thesis by simp
next
  case (SelectRecv i)
  with st have i: "i < length (consumers w)" and sr: "select_recv i w = Some w'"
    by (auto simp: step_def split: if_splits)
  from sr consider
      (panic) p where "w' = w\<lparr>panicked := Some p\<rparr>"
    | (recv) a v c where "listener w = Some a" "chan_recv (chans w a) = Done (v, c)"
        "w' = w\<lparr>chans := (chans w)(a := c), consumers := (consumers w)[i := Handling v],
                trace := trace w @ [EvDispatch a v]\<rparr>"
    by (auto simp: select_recv_def split: option.splits outcome.splits)
  then show ?thesis
  proof cases
    case panic
    with nc all show ?thesis by simp
  next
    case recv
    from recv(2) have "closed c = closed (chans w a)"
      by (auto simp: chan_recv_def split: list.splits if_splits)
    with recv(3) nc all P2[of "Handling v"] show ?thesis
      by (auto intro: list_all_update)
  qed
next
  case (SelectCancel i)
  with st have i: "i < length (consumers w)" and sc: "select_cancel i w = Some w'"
    by (auto simp: step_def split: if_splits)
  from all i have "in_loop (consumers w ! i) \<or> consumers w ! i = Returned"
    by (auto dest: list_all_nth P1)
  with nc all sc show ?thesis
    by (auto simp: select_cancel_def split: option.splits if_splits)
next
  case (Proceed i)
  with st have i: "i < length (consumers w)"
    by (auto simp: step_def split: if_splits)
  from all i have pc: "in_loop (consumers w ! i) \<or> consumers w ! i = Returned"
    by (auto dest: list_all_nth P1)
  with Proceed st i nc all P2[of AtSelect] P2[of LoopHead] show ?thesis
    by (cases "consumers w ! i")
       (auto simp: step_def enter_select_def handler_done_def
          split: if_splits option.splits intro: list_all_update)
next
  case (EngineCall k n)
  with st nc all show ?thesis
    by (auto simp: step_def engine_call_def split: if_splits regobj.splits option.splits)
next
  case (EngineSend j)
  with st nc all show ?thesis
    by (auto simp: step_def engine_send_def chan_send_def split: if_splits prod.splits)
next
  case (Rendezvous j i)
  with st have "rendezvous j i w = Some w'" by (auto simp: step_def split: if_splits)
  then obtain a n where
    "w' = w\<lparr>consumers := (consumers w)[i := Handling (Some n)],
            sending := take j (sending w) @ drop (Suc j) (sending w),
            trace := trace w @ [EvEnq a n, EvDispatch a (Some n)]\<rparr>"
    by (rule rendezvous_eq)
  with nc all P2[of "Handling (Some n)"] show ?thesis
    by (auto intro: list_all_update)
qed

lemma loop_run:
  assumes P1: "\<And>pc. P pc \<Longrightarrow> in_loop pc \<or> pc = Returned" and P2: "\<And>pc. in_loop pc \<Longrightarrow> P pc"
  shows "\<not> cancelled w \<Longrightarrow> list_all P (consumers w) \<Longrightarrow> NavigateFrom \<notin> set acts \<Longrightarrow>
         run cf acts w = Some w' \<Longrightarrow>
         \<not> cancelled w' \<and> list_all P (consumers w') \<and>
         teardown_events (trace w') = teardown_events (trace w) \<and>
         (\<forall>a. closed (chans w' a) \<longrightarrow> closed (chans w a))"
proof (induction acts arbitrary: w)
  case Nil
  then show ?case by simp
next
  case (Cons act acts)
  from Cons.prems(4) obtain w1 where s: "step cf act w = Some w1" and r: "run cf acts w1 = Some w'"
    by (auto split: option.splits)
  from Cons.prems(3) have na: "act \<noteq> NavigateFrom" and nas: "NavigateFrom \<notin> set acts" by auto
  from loop_step[of P, OF P1 P2 Cons.prems(1,2) na s]
  have c1: "\<not> cancelled w1" and a1: "list_all P (consumers w1)"
    and t1: "teardown_events (trace w1) = teardown_events (trace w)"
    and cl: "\<forall>a. closed (chans w1 a) \<longrightarrow> closed (chans w a)"
    by blast+
  from Cons.IH[OF c1 a1 nas r] t1 cl show ?case by auto
qed

lemma undisturbed_run:
  assumes "undisturbed w" "NavigateFrom \<notin> set acts" "run cf acts w = Some w'"
  shows "undisturbed w' \<and> teardown_events (trace w') = teardown_events (trace w)"
  using loop_run[of "\<lambda>pc. in_loop pc \<or> pc = Returned" w acts cf w'] assms
  by (auto simp: undisturbed_def)


subsection \<open>Several instances under one name\<close>

















subsection \<open>Evaluating concrete executions\<close>

lemmas run_defs =
  ProposalsPage_def AccountMixerPage_def OrderHistoryPage_def
  step_def new_page_def OnNavigatedTo_def OnNavigatedFrom_def replace_ctx_def
  listenForSyncNotifications_def AddNotificationListener_def engine_call_def
  engine_send_def chan_send_def make_chan_def enter_select_def select_recv_def chan_recv_def
  handler_done_def select_cancel_def
  teardown_remove_def RemoveNotificationListener_def teardown_close_def chan_close_def
  teardown_clear_def rendezvous_def

section \<open>Claims\<close>






text \<open>
  Claim C3, as the code has it. On every reachable state the successful adds,
  the removes, the closes and the clears recorded so far follow the cyclic order
  add, remove, close, clear, and the phase reached is the one the consumers'
  program counters show: no registration is removed, closed or cleared twice,
  and none out of order. A teardown is run by a consumer that takes the
  cancellation case, which it can do exactly when it waits at its \<^verbatim>\<open>select\<close>
  and the context it read on entering is cancelled. Its three statements then
  perform one remove, one close of the listener's channel (which is open until
  then) and the clearing of the listener pointer, after which the goroutine has
  returned; what the channel buffers plays no part. The remove call does not
  return while a callback is running if the engine waits for its callbacks, and
  returns at once otherwise.

  A detach does not by itself lead to a teardown. If the page is detached and
  attached again while no consumer waits at its \<^verbatim>\<open>select\<close>, the state
  reached is undisturbed, and from an undisturbed state no remove, close or
  clear is performed until the page is detached once more.
\<close>

theorem teardown_on_observed_cancellation:
  assumes "run cf acts new_page = Some w"
  shows "lifecycle Unregistered (trace w) = Some (phase (consumers w)) \<and>
         (panicked w = None \<and> i < length (consumers w) \<longrightarrow>
            step cf (SelectCancel i) w =
              (if consumers w ! i = AtSelect \<and> cancelled w \<or> consumers w ! i = AtSelectOld True
               then Some (w\<lparr>consumers := (consumers w)[i := TdRemove]\<rparr>) else None)) \<and>
         (panicked w = None \<and> i < length (consumers w) \<and> consumers w ! i = TdRemove \<longrightarrow>
            step cf (Proceed i) w =
              (if engine_waits cf \<and> sending w \<noteq> [] then None
               else Some (w\<lparr>registry := [], consumers := (consumers w)[i := TdClose],
                            trace := trace w @ [EvRemove]\<rparr>))) \<and>
         (panicked w = None \<and> i < length (consumers w) \<and> consumers w ! i = TdClose \<longrightarrow>
            (\<exists>a. listener w = Some a \<and> \<not> closed (chans w a) \<and>
               step cf (Proceed i) w =
                 Some (w\<lparr>chans := (chans w)(a := (chans w a)\<lparr>closed := True\<rparr>),
                         consumers := (consumers w)[i := TdClear],
                         trace := trace w @ [EvClose a]\<rparr>))) \<and>
         (panicked w = None \<and> i < length (consumers w) \<and> consumers w ! i = TdClear \<longrightarrow>
            step cf (Proceed i) w =
              Some (w\<lparr>listener := None, consumers := (consumers w)[i := Returned],
                      trace := trace w @ [EvClear]\<rparr>)) \<and>
         (panicked w = None \<and> has_ctx w \<and>
          list_all (\<lambda>pc. \<not> parked pc \<and> (in_loop pc \<or> pc = Returned)) (consumers w) \<longrightarrow>
            (\<exists>w'. run cf [NavigateFrom, NavigateTo accept] w = Some w' \<and> undisturbed w' \<and>
                  teardown_events (trace w') = teardown_events (trace w))) \<and>
         (undisturbed w \<longrightarrow>
            (\<forall>acts' w'. NavigateFrom \<notin> set acts' \<and> run cf acts' w = Some w' \<longrightarrow>
               undisturbed w' \<and> teardown_events (trace w') = teardown_events (trace w)))"
proof (intro conjI impI)
  from assms have iw: "inv cf w" by (rule reachable_inv)
  then have pcs: "inv_pcs cf w" by (simp add: inv_def)
  show "lifecycle Unregistered (trace w) = Some (phase (consumers w))"
    using pcs by (simp add: inv_pcs_def)
  show "step cf (SelectCancel i) w =
          (if consumers w ! i = AtSelect \<and> cancelled w \<or> consumers w ! i = AtSelectOld True
           then Some (w\<lparr>consumers := (consumers w)[i := TdRemove]\<rparr>) else None)"
    if h: "panicked w = None \<and> i < length (consumers w)"
  proof (cases "parked (consumers w ! i)")
    case True
    with live_open[OF pcs, of i] h obtain a where "listener w = Some a" by auto
    with True h show ?thesis
      by (auto simp: step_def select_cancel_def)
  next
    case False
    with h show ?thesis by (auto simp: step_def)
  qed
  show "step cf (Proceed i) w =
          (if engine_waits cf \<and> sending w \<noteq> [] then None
           else Some (w\<lparr>registry := [], consumers := (consumers w)[i := TdClose],
                        trace := trace w @ [EvRemove]\<rparr>))"
    if h: "panicked w = None \<and> i < length (consumers w) \<and> consumers w ! i = TdRemove"
  proof -
    from h have "phase_of (consumers w ! i) = Registered" by simp
    with live_facts[OF iw, of i] h obtain a where "registry w = expected_reg cf a" by blast
    with h show ?thesis by (simp add: step_def teardown_remove_def)
  qed
  show "\<exists>a. listener w = Some a \<and> \<not> closed (chans w a) \<and>
            step cf (Proceed i) w =
              Some (w\<lparr>chans := (chans w)(a := (chans w a)\<lparr>closed := True\<rparr>),
                      consumers := (consumers w)[i := TdClear],
                      trace := trace w @ [EvClose a]\<rparr>)"
    if h: "panicked w = None \<and> i < length (consumers w) \<and> consumers w ! i = TdClose"
  proof -
    from h have "phase_of (consumers w ! i) = Removed" by simp
    with live_open[OF pcs, of i] h obtain a where "listener w = Some a" "\<not> closed (chans w a)"
      by auto
    with h show ?thesis by (simp add: step_def teardown_close_def chan_close_def)
  qed
  show "step cf (Proceed i) w =
          Some (w\<lparr>listener := None, consumers := (consumers w)[i := Returned],
                  trace := trace w @ [EvClear]\<rparr>)"
    if h: "panicked w = None \<and> i < length (consumers w) \<and> consumers w ! i = TdClear"
    using h by (simp add: step_def teardown_clear_def)
  show "\<exists>w'. run cf [NavigateFrom, NavigateTo accept] w = Some w' \<and> undisturbed w' \<and>
              teardown_events (trace w') = teardown_events (trace w)"
    if h: "panicked w = None \<and> has_ctx w \<and>
           list_all (\<lambda>pc. \<not> parked pc \<and> (in_loop pc \<or> pc = Returned)) (consumers w)"
  proof -
    from h have "replace_ctx True pc = pc" if "pc \<in> set (consumers w)" for pc
      using that by (auto simp: list_all_iff replace_ctx_def)
    then have m: "map (replace_ctx True) (consumers w) = consumers w"
      by (simp add: map_idI)
    from h have l: "list_all (\<lambda>pc. in_loop pc \<or> pc = Returned) (consumers w)"
      by (auto simp: list_all_iff)
    from h m l show ?thesis
      by (auto simp: step_def OnNavigatedFrom_def OnNavigatedTo_def undisturbed_def
          listenForSyncNotifications_def AddNotificationListener_def Let_def)
  qed
  show "\<forall>acts' w'. NavigateFrom \<notin> set acts' \<and> run cf acts' w = Some w' \<longrightarrow>
          undisturbed w' \<and> teardown_events (trace w') = teardown_events (trace w)"
    if "undisturbed w"
    using undisturbed_run[OF that] by blast
qed

theorem teardown_on_observed_cancellation_witness:
  "run (OrderHistoryPage 4 True) inflight_schedule new_page \<noteq> None \<and>
   panicked (the (run (OrderHistoryPage 4 True) inflight_schedule new_page)) = None \<and>
   consumers (the (run (OrderHistoryPage 4 True) inflight_schedule new_page)) = [TdRemove] \<and>
   engine_waits (OrderHistoryPage 4 True) \<and>
   sending (the (run (OrderHistoryPage 4 True) inflight_schedule new_page)) = [(0, 8)] \<and>
   buf (chans (the (run (OrderHistoryPage 4 True) inflight_schedule new_page)) 0) = [7] \<and>
   lifecycle Unregistered (trace (the (run (OrderHistoryPage 4 True) inflight_schedule new_page)))
     = Some Registered \<and>
   step (OrderHistoryPage 4 True) (Proceed 0)
     (the (run (OrderHistoryPage 4 True) inflight_schedule new_page)) = None \<and>
   step (OrderHistoryPage 4 True) (SelectCancel 0)
     (the (run (OrderHistoryPage 4 True) inflight_schedule new_page)) = None \<and>
   run (OrderHistoryPage 4 True) (inflight_schedule @ [EngineSend 0, Proceed 0]) new_page
     \<noteq> None \<and>
   consumers (the (run (OrderHistoryPage 4 True) (inflight_schedule @ [EngineSend 0, Proceed 0])
     new_page)) = [TdClose] \<and>
   buf (chans (the (run (OrderHistoryPage 4 True) (inflight_schedule @ [EngineSend 0, Proceed 0])
     new_page)) 0) = [7, 8] \<and>
   run (OrderHistoryPage 4 True) [Proceed 0, Proceed 0]
     (the (run (OrderHistoryPage 4 True) (inflight_schedule @ [EngineSend 0, Proceed 0])
        new_page)) \<noteq> None \<and>
   trace (the (run (OrderHistoryPage 4 True) [Proceed 0, Proceed 0]
     (the (run (OrderHistoryPage 4 True) (inflight_schedule @ [EngineSend 0, Proceed 0])
        new_page))))
     = [EvAdd True, EvSpawn, EvEnq 0 7, EvCancel, EvEnq 0 8, EvRemove, EvClose 0, EvClear] \<and>
   run (OrderHistoryPage 4 True) [NavigateTo True] (new_page :: nat world) \<noteq> None \<and>
   has_ctx (the (run (OrderHistoryPage 4 True) [NavigateTo True] (new_page :: nat world))) \<and>
   consumers (the (run (OrderHistoryPage 4 True) [NavigateTo True] (new_page :: nat world)))
     = [LoopHead] \<and>
   run (OrderHistoryPage 4 True) [NavigateFrom, NavigateTo True]
     (the (run (OrderHistoryPage 4 True) [NavigateTo True] (new_page :: nat world))) \<noteq> None \<and>
   undisturbed (the (run (OrderHistoryPage 4 True) [NavigateFrom, NavigateTo True]
     (the (run (OrderHistoryPage 4 True) [NavigateTo True] (new_page :: nat world))))) \<and>
   teardown_events (trace (the (run (OrderHistoryPage 4 True) [NavigateFrom, NavigateTo True]
     (the (run (OrderHistoryPage 4 True) [NavigateTo True] (new_page :: nat world)))))) = []"
proof -
  obtain u where h: "run (OrderHistoryPage 4 True) inflight_schedule new_page = Some u"
    and f: "panicked u = None" "consumers u = [TdRemove]" "sending u = [(0, 8)]"
      "buf (chans u 0) = [7]" "listener u = Some 0" "registry u = [(''OrderHistory'', RegListener 0)]"
      "trace u = [EvAdd True, EvSpawn, EvEnq 0 7, EvCancel]" "cancelled u"
      "chans u 0 = \<lparr>cap = 4, buf = [7], closed = False\<rparr>"
    by (simp add: inflight_schedule_def run_defs)
  obtain u2 where h2: "run (OrderHistoryPage 4 True) (inflight_schedule @ [EngineSend 0, Proceed 0])
      new_page = Some u2"
    and f2: "panicked u2 = None" "consumers u2 = [TdClose]" "buf (chans u2 0) = [7, 8]"
      "listener u2 = Some 0"
      "trace u2 = [EvAdd True, EvSpawn, EvEnq 0 7, EvCancel, EvEnq 0 8, EvRemove]"
    by (simp add: inflight_schedule_def run_defs)
  obtain v :: "nat world" where k: "run (OrderHistoryPage 4 True) [NavigateTo True] new_page = Some v"
    and g: "panicked v = None" "has_ctx v" "consumers v = [LoopHead]" "trace v = [EvAdd True, EvSpawn]"
    by (simp add: run_defs)
  have w: "engine_waits (OrderHistoryPage 4 True)" by (simp add: OrderHistoryPage_def)
  note t = teardown_on_observed_cancellation[OF h, of 0]
  from t f have a: "lifecycle Unregistered (trace u) = Some Registered"
    by (simp add: phase_def)
  from t f w have b: "step (OrderHistoryPage 4 True) (Proceed 0) u = None"
    by simp
  from t f have c: "step (OrderHistoryPage 4 True) (SelectCancel 0) u = None"
    by simp
  note t2 = teardown_on_observed_cancellation[OF h2, of 0]
  from t2 f2 have d: "step (OrderHistoryPage 4 True) (Proceed 0) u2 =
      Some (u2\<lparr>chans := (chans u2)(0 := (chans u2 0)\<lparr>closed := True\<rparr>),
               consumers := (consumers u2)[0 := TdClear],
               trace := trace u2 @ [EvClose 0]\<rparr>)"
    by auto
  then obtain u3 where r3: "run (OrderHistoryPage 4 True) [Proceed 0, Proceed 0] u2 = Some u3"
    and f3: "trace u3 = trace u2 @ [EvClose 0, EvClear]"
    using f2 by (simp add: step_def teardown_clear_def)
  from teardown_on_observed_cancellation[OF k, of 0 True]
  have "panicked v = None \<and> has_ctx v \<and>
        list_all (\<lambda>pc. \<not> parked pc \<and> (in_loop pc \<or> pc = Returned)) (consumers v) \<longrightarrow>
          (\<exists>w'. run (OrderHistoryPage 4 True) [NavigateFrom, NavigateTo True] v = Some w' \<and>
                undisturbed w' \<and> teardown_events (trace w') = teardown_events (trace v))"
    by blast
  moreover have "list_all (\<lambda>pc. \<not> parked pc \<and> (in_loop pc \<or> pc = Returned)) (consumers v)"
    using g by simp
  ultimately obtain v' where
    r: "run (OrderHistoryPage 4 True) [NavigateFrom, NavigateTo True] v = Some v'"
    and uv: "undisturbed v'" and tv: "teardown_events (trace v') = teardown_events (trace v)"
    using g by blast
  from h f a b c w h2 f2 r3 f3 k g r uv tv show ?thesis
    by (simp del: run.simps)
qed

text \<open>
  Claim C3 as stated fails on these executions. The page is attached, detached
  and attached again before the goroutine has entered its \<^verbatim>\<open>select\<close>; or it
  is detached and attached again while the handler of a notification runs. In
  both the goroutine then enters the \<^verbatim>\<open>select\<close> with the new context: the
  cancellation case cannot be taken, the registration made by the first attach
  is still in the table, and the detach has caused no remove, no close and no
  clear.
\<close>

theorem detach_then_reattach_no_teardown:
  "run (ProposalsPage 4 False) reattach_schedule new_page \<noteq> None \<and>
   trace (the (run (ProposalsPage 4 False) reattach_schedule new_page))
     = [EvAdd True, EvSpawn, EvCancel] \<and>
   registry (the (run (ProposalsPage 4 False) reattach_schedule new_page))
     = [(''Proposals'', RegListener 0)] \<and>
   consumers (the (run (ProposalsPage 4 False) reattach_schedule new_page)) = [AtSelect] \<and>
   \<not> cancelled (the (run (ProposalsPage 4 False) reattach_schedule new_page)) \<and>
   step (ProposalsPage 4 False) (SelectCancel 0)
     (the (run (ProposalsPage 4 False) reattach_schedule new_page)) = None \<and>
   run (ProposalsPage 4 False) reattach_handler_schedule new_page \<noteq> None \<and>
   trace (the (run (ProposalsPage 4 False) reattach_handler_schedule new_page))
     = [EvAdd True, EvSpawn, EvEnq 0 7, EvDispatch 0 (Some 7), EvCancel] \<and>
   registry (the (run (ProposalsPage 4 False) reattach_handler_schedule new_page))
     = [(''Proposals'', RegListener 0)] \<and>
   consumers (the (run (ProposalsPage 4 False) reattach_handler_schedule new_page))
     = [AtSelect] \<and>
   step (ProposalsPage 4 False) (SelectCancel 0)
     (the (run (ProposalsPage 4 False) reattach_handler_schedule new_page)) = None"
  by (simp add: reattach_schedule_def reattach_handler_schedule_def run_defs)

text \<open>
  Claim C4. The channel made by \<^verbatim>\<open>NewTxAndBlockNotificationListener\<close> is empty,
  open and of capacity 4. On such a channel \<^verbatim>\<open>UpdateNotification\<close> appends its
  argument while fewer than 4 values are buffered; with 4 buffered it blocks and
  leaves the channel as it is, and once the consumer has received the oldest
  value the same call succeeds and appends: nothing is dropped.
\<close>

theorem tx_channel_capacity_blocking:
  "TxAndBlockNotifChan NewTxAndBlockNotificationListener = \<lparr>cap = 4, buf = [], closed = False\<rparr> \<and>
   (length ns < 4 \<longrightarrow>
      UpdateNotification signal \<lparr>TxAndBlockNotifChan = \<lparr>cap = 4, buf = ns, closed = False\<rparr>\<rparr>
        = Done \<lparr>TxAndBlockNotifChan = \<lparr>cap = 4, buf = ns @ [signal], closed = False\<rparr>\<rparr>) \<and>
   (length ns = 3 \<longrightarrow>
      UpdateNotification signal \<lparr>TxAndBlockNotifChan = \<lparr>cap = 4, buf = n # ns, closed = False\<rparr>\<rparr>
        = Blocked \<and>
      chan_recv \<lparr>cap = 4, buf = n # ns, closed = False\<rparr>
        = Done (Some n, \<lparr>cap = 4, buf = ns, closed = False\<rparr>) \<and>
      UpdateNotification signal \<lparr>TxAndBlockNotifChan = \<lparr>cap = 4, buf = ns, closed = False\<rparr>\<rparr>
        = Done \<lparr>TxAndBlockNotifChan = \<lparr>cap = 4, buf = ns @ [signal], closed = False\<rparr>\<rparr>)"
  by (simp add: NewTxAndBlockNotificationListener_def make_chan_def UpdateNotification_def
      chan_send_def chan_recv_def)

theorem tx_channel_capacity_blocking_witness:
  "length (tl (buf (TxAndBlockNotifChan four_buffered))) = 3 \<and>
   OnTransactionConfirmed 1 ''abc'' 103 four_buffered = Blocked \<and>
   chan_recv (TxAndBlockNotifChan four_buffered) =
     Done (Some \<lparr>Type = BlockAttached, Transaction = None, WalletID = 1,
                 BlockHeight = 100, Hash = []\<rparr>,
           \<lparr>cap = 4, buf = tl (buf (TxAndBlockNotifChan four_buffered)), closed = False\<rparr>) \<and>
   OnTransactionConfirmed 1 ''abc'' 103
     \<lparr>TxAndBlockNotifChan =
        \<lparr>cap = 4, buf = tl (buf (TxAndBlockNotifChan four_buffered)), closed = False\<rparr>\<rparr> =
     Done \<lparr>TxAndBlockNotifChan =
        \<lparr>cap = 4,
         buf = tl (buf (TxAndBlockNotifChan four_buffered)) @
               [\<lparr>Type = TxConfirmed, Transaction = None, WalletID = 1,
                 BlockHeight = 103, Hash = ''abc''\<rparr>],
         closed = False\<rparr>\<rparr>"
proof -
  have l: "length (tl (buf (TxAndBlockNotifChan four_buffered))) = 3"
    and e: "four_buffered =
      \<lparr>TxAndBlockNotifChan =
         \<lparr>cap = 4,
          buf = \<lparr>Type = BlockAttached, Transaction = None, WalletID = 1,
                  BlockHeight = 100, Hash = []\<rparr> # tl (buf (TxAndBlockNotifChan four_buffered)),
          closed = False\<rparr>\<rparr>"
    by (simp_all add: four_buffered_def)
  from tx_channel_capacity_blocking[of "tl (buf (TxAndBlockNotifChan four_buffered))"
      "\<lparr>Type = TxConfirmed, Transaction = None, WalletID = 1, BlockHeight = 103, Hash = ''abc''\<rparr>"
      "\<lparr>Type = BlockAttached, Transaction = None, WalletID = 1, BlockHeight = 100, Hash = []\<rparr>"]
    l
  have "UpdateNotification
      \<lparr>Type = TxConfirmed, Transaction = None, WalletID = 1, BlockHeight = 103, Hash = ''abc''\<rparr>
      \<lparr>TxAndBlockNotifChan =
         \<lparr>cap = 4,
          buf = \<lparr>Type = BlockAttached, Transaction = None, WalletID = 1,
                  BlockHeight = 100, Hash = []\<rparr> # tl (buf (TxAndBlockNotifChan four_buffered)),
          closed = False\<rparr>\<rparr> = Blocked \<and>
    chan_recv \<lparr>cap = 4,
          buf = \<lparr>Type = BlockAttached, Transaction = None, WalletID = 1,
                  BlockHeight = 100, Hash = []\<rparr> # tl (buf (TxAndBlockNotifChan four_buffered)),
          closed = False\<rparr> =
      Done (Some \<lparr>Type = BlockAttached, Transaction = None, WalletID = 1,
                  BlockHeight = 100, Hash = []\<rparr>,
            \<lparr>cap = 4, buf = tl (buf (TxAndBlockNotifChan four_buffered)), closed = False\<rparr>) \<and>
    UpdateNotification
      \<lparr>Type = TxConfirmed, Transaction = None, WalletID = 1, BlockHeight = 103, Hash = ''abc''\<rparr>
      \<lparr>TxAndBlockNotifChan =
        \<lparr>cap = 4, buf = tl (buf (TxAndBlockNotifChan four_buffered)), closed = False\<rparr>\<rparr> =
     Done \<lparr>TxAndBlockNotifChan =
        \<lparr>cap = 4,
         buf = tl (buf (TxAndBlockNotifChan four_buffered)) @
               [\<lparr>Type = TxConfirmed, Transaction = None, WalletID = 1,
                 BlockHeight = 103, Hash = ''abc''\<rparr>],
         closed = False\<rparr>\<rparr>"
    by blast
  with l show ?thesis
    unfolding OnTransactionConfirmed_def
    by (subst (1 2) e) simp
qed



text \<open>
  Claim C6, as the code has it. When a consumer reaches its \<^verbatim>\<open>select\<close> with a
  notification buffered and the context cancelled, both cases can proceed and
  either may be taken: the cancellation case starts the teardown (on the
  transactions page: returns), the receive case dispatches the oldest buffered
  notification. Neither case has priority.
\<close>

theorem select_may_take_either_ready_case:
  assumes "panicked w = None" "i < length (consumers w)" "consumers w ! i = AtSelect"
    and "cancelled w" "listener w = Some a" "buf (chans w a) = v # vs"
    and "j < length (tx_consumers t)" "tx_consumers t ! j = TxAtSelect"
    and "tx_cancelled t" "buf (NotificationsUpdate t) = x # xs"
  shows "step cf (SelectCancel i) w = Some (w\<lparr>consumers := (consumers w)[i := TdRemove]\<rparr>) \<and>
         step cf (SelectRecv i) w =
           Some (w\<lparr>chans := (chans w)(a := (chans w a)\<lparr>buf := vs\<rparr>),
                   consumers := (consumers w)[i := Handling (Some v)],
                   trace := trace w @ [EvDispatch a (Some v)]\<rparr>) \<and>
         tx_step (TxSelectCancel j) t =
           Some (t\<lparr>tx_consumers := (tx_consumers t)[j := TxReturned]\<rparr>) \<and>
         tx_step (TxSelectRecv j) t =
           Some (t\<lparr>NotificationsUpdate := (NotificationsUpdate t)\<lparr>buf := xs\<rparr>,
                   tx_consumers := (tx_consumers t)[j := TxSwitch (Some x)]\<rparr>)"
  using assms
  by (simp add: step_def select_cancel_def select_recv_def chan_recv_def
      tx_step_def tx_select_cancel_def tx_select_recv_def)

theorem select_may_take_either_ready_case_witness:
  "panicked (the (run (AccountMixerPage 4 False) tie_schedule new_page)) = None \<and>
   consumers (the (run (AccountMixerPage 4 False) tie_schedule new_page)) ! 0 = AtSelect \<and>
   cancelled (the (run (AccountMixerPage 4 False) tie_schedule new_page)) \<and>
   listener (the (run (AccountMixerPage 4 False) tie_schedule new_page)) = Some 0 \<and>
   buf (chans (the (run (AccountMixerPage 4 False) tie_schedule new_page)) 0) = [7] \<and>
   tx_consumers tx_tie ! 0 = TxAtSelect \<and> tx_cancelled tx_tie \<and>
   buf (NotificationsUpdate tx_tie) = [NewTransactionNote 1] \<and>
   step (AccountMixerPage 4 False) (SelectCancel 0)
     (the (run (AccountMixerPage 4 False) tie_schedule new_page)) \<noteq> None \<and>
   step (AccountMixerPage 4 False) (SelectRecv 0)
     (the (run (AccountMixerPage 4 False) tie_schedule new_page)) \<noteq> None \<and>
   tx_step (TxSelectCancel 0) tx_tie \<noteq> None \<and> tx_step (TxSelectRecv 0) tx_tie \<noteq> None"
proof -
  obtain w where h: "run (AccountMixerPage 4 False) tie_schedule new_page = Some w"
    and f: "panicked w = None" "0 < length (consumers w)" "consumers w ! 0 = AtSelect"
      "cancelled w" "listener w = Some 0" "buf (chans w 0) = [7]"
    by (simp add: tie_schedule_def run_defs)
  have g: "0 < length (tx_consumers tx_tie)" "tx_consumers tx_tie ! 0 = TxAtSelect"
    "tx_cancelled tx_tie" "buf (NotificationsUpdate tx_tie) = [NewTransactionNote 1]"
    by (simp_all add: tx_tie_def)
  from select_may_take_either_ready_case[OF f g, of "AccountMixerPage 4 False"] h f g
  show ?thesis by simp
qed

text \<open>
  Claim C6 as stated fails on this execution: after attach, one enqueue and
  detach, the consumer is at its \<^verbatim>\<open>select\<close> with \<open>7\<close> buffered and the context
  cancelled, and it takes the receive case and dispatches \<open>7\<close>. The same holds
  for the \<^verbatim>\<open>select\<close> of the transactions page.
\<close>

theorem receive_taken_although_cancelled:
  "run (AccountMixerPage 4 False) tie_schedule new_page \<noteq> None \<and>
   cancelled (the (run (AccountMixerPage 4 False) tie_schedule new_page)) \<and>
   consumers (the (run (AccountMixerPage 4 False) tie_schedule new_page)) = [AtSelect] \<and>
   buf (chans (the (run (AccountMixerPage 4 False) tie_schedule new_page)) 0) = [7] \<and>
   run (AccountMixerPage 4 False) (tie_schedule @ [SelectRecv 0]) new_page \<noteq> None \<and>
   consumers (the (run (AccountMixerPage 4 False) (tie_schedule @ [SelectRecv 0]) new_page))
     = [Handling (Some 7)] \<and>
   dispatched 0 (trace (the (run (AccountMixerPage 4 False) (tie_schedule @ [SelectRecv 0]) new_page)))
     = [Some 7] \<and>
   tx_cancelled tx_tie \<and>
   tx_step (TxSelectRecv 0) tx_tie =
     Some (tx_tie\<lparr>NotificationsUpdate := \<lparr>cap = 4, buf = [], closed = False\<rparr>,
                  tx_consumers := [TxSwitch (Some (NewTransactionNote 1))]\<rparr>)"
  by (simp add: tie_schedule_def tx_tie_def run_defs tx_step_def tx_select_recv_def)

text \<open>
  Claim C7. If the argument of \<^verbatim>\<open>OnTransaction\<close> does not decode, the call
  writes one error line, leaves the listener and its channel unchanged, and
  returns normally. If it decodes to \<open>tx\<close>, the call writes nothing and is
  exactly one \<^verbatim>\<open>UpdateNotification\<close> of the \<^verbatim>\<open>NewTransaction\<close> notification
  carrying \<open>tx\<close>; on an open channel with room the buffer grows by that one
  notification.
\<close>

theorem OnTransaction_drop_or_enqueue:
  "(unmarshal transaction = Inl err \<longrightarrow>
      OnTransaction unmarshal transaction l
        = ([''Error unmarshalling transaction: '' @ err], Done l)) \<and>
   (unmarshal transaction = Inr tx \<longrightarrow>
      OnTransaction unmarshal transaction l
        = ([], UpdateNotification
                 \<lparr>Type = NewTransaction, Transaction = Some tx, WalletID = 0,
                  BlockHeight = 0, Hash = []\<rparr> l) \<and>
      (\<not> closed (TxAndBlockNotifChan l) \<and>
       length (buf (TxAndBlockNotifChan l)) < cap (TxAndBlockNotifChan l) \<longrightarrow>
         (\<exists>l'. snd (OnTransaction unmarshal transaction l) = Done l' \<and>
               buf (TxAndBlockNotifChan l') =
                 buf (TxAndBlockNotifChan l) @
                   [\<lparr>Type = NewTransaction, Transaction = Some tx, WalletID = 0,
                     BlockHeight = 0, Hash = []\<rparr>] \<and>
               cap (TxAndBlockNotifChan l') = cap (TxAndBlockNotifChan l) \<and>
               \<not> closed (TxAndBlockNotifChan l'))))"
  by (auto simp: OnTransaction_def UpdateNotification_def chan_send_def)

theorem OnTransaction_drop_or_enqueue_witness:
  "example_unmarshal ''{'' = Inl ''unexpected end of JSON input'' \<and>
   OnTransaction example_unmarshal ''{'' NewTxAndBlockNotificationListener
     = ([''Error unmarshalling transaction: unexpected end of JSON input''],
        Done NewTxAndBlockNotificationListener) \<and>
   example_unmarshal ''{}'' = Inr 1 \<and>
   \<not> closed (TxAndBlockNotifChan (NewTxAndBlockNotificationListener :: nat TxAndBlockNotificationListener)) \<and>
   length (buf (TxAndBlockNotifChan (NewTxAndBlockNotificationListener :: nat TxAndBlockNotificationListener))) < 4 \<and>
   OnTransaction example_unmarshal ''{}'' NewTxAndBlockNotificationListener
     = ([], Done \<lparr>TxAndBlockNotifChan =
                   \<lparr>cap = 4,
                    buf = [\<lparr>Type = NewTransaction, Transaction = Some 1, WalletID = 0,
                            BlockHeight = 0, Hash = []\<rparr>],
                    closed = False\<rparr>\<rparr>)"
proof -
  have a: "example_unmarshal ''{'' = Inl ''unexpected end of JSON input''"
    and b: "example_unmarshal ''{}'' = Inr 1"
    by (simp_all add: example_unmarshal_def)
  from OnTransaction_drop_or_enqueue[of example_unmarshal "''{''" "''unexpected end of JSON input''"
      NewTxAndBlockNotificationListener 1]
    OnTransaction_drop_or_enqueue[of example_unmarshal "''{}''" "''''"
      NewTxAndBlockNotificationListener 1] a b
  show ?thesis
    by (simp add: NewTxAndBlockNotificationListener_def make_chan_def UpdateNotification_def
        chan_send_def)
qed

text \<open>
  Claim C8. When attach runs on a reachable state with no listener and the
  engine rejects the registration, the page stores the new listener, logs the
  error and returns: no goroutine is started (the consumers are unchanged and
  all of them have returned), nothing is registered and nothing panics. In every
  continuation the consumers stay as they are, and the new listener's channel
  is never read and stays empty.
\<close>

theorem failed_registration_no_consumer:
  assumes "run cf acts new_page = Some w" "listener w = None"
  shows "OnNavigatedTo cf False w =
           w\<lparr>has_ctx := True, cancelled := False, listener := Some (next_addr w),
             chans := (chans w)(next_addr w := make_chan (chan_cap cf)),
             next_addr := Suc (next_addr w),
             trace := trace w @ [EvAdd False, EvLogError]\<rparr> \<and>
         (\<forall>i < length (consumers w). consumers w ! i = Returned) \<and>
         (\<forall>acts' w'. run cf acts' (OnNavigatedTo cf False w) = Some w' \<longrightarrow>
            consumers w' = consumers w \<and>
            dispatched (next_addr w) (trace w') = [] \<and>
            buf (chans w' (next_addr w)) = [])"
proof -
  from assms(1) have i: "inv cf w" by (rule reachable_inv)
  note eq = failed_attach_eq[OF i assms(2)]
  note d0 = failed_attach_degraded[OF i assms(2)]
  from i have fresh: "dispatched (next_addr w) (trace w) = []"
    by (auto simp: inv_def inv_alloc_def)
  have "consumers w' = consumers w \<and> dispatched (next_addr w) (trace w') = [] \<and>
        buf (chans w' (next_addr w)) = []"
    if "run cf acts' (OnNavigatedTo cf False w) = Some w'" for acts' w'
  proof -
    from degraded_run[OF d0 that] have d: "degraded (OnNavigatedTo cf False w) w'" .
    then show ?thesis
      unfolding eq degraded_def using fresh by simp
  qed
  moreover from d0 have "\<forall>i < length (consumers w). consumers w ! i = Returned"
    unfolding eq degraded_def by simp
  ultimately show ?thesis using eq by blast
qed

theorem failed_registration_no_consumer_witness:
  "run (OrderHistoryPage 4 False) [] (new_page :: nat world) = Some new_page \<and>
   listener (new_page :: nat world) = None \<and>
   consumers (OnNavigatedTo (OrderHistoryPage 4 False) False (new_page :: nat world)) = [] \<and>
   registry (OnNavigatedTo (OrderHistoryPage 4 False) False (new_page :: nat world)) = [] \<and>
   panicked (OnNavigatedTo (OrderHistoryPage 4 False) False (new_page :: nat world)) = None \<and>
   trace (OnNavigatedTo (OrderHistoryPage 4 False) False (new_page :: nat world))
     = [EvAdd False, EvLogError] \<and>
   run (OrderHistoryPage 4 False) [NavigateFrom, NavigateTo True]
     (OnNavigatedTo (OrderHistoryPage 4 False) False (new_page :: nat world)) \<noteq> None \<and>
   consumers (the (run (OrderHistoryPage 4 False) [NavigateFrom, NavigateTo True]
     (OnNavigatedTo (OrderHistoryPage 4 False) False (new_page :: nat world)))) = [] \<and>
   dispatched 0 (trace (the (run (OrderHistoryPage 4 False) [NavigateFrom, NavigateTo True]
     (OnNavigatedTo (OrderHistoryPage 4 False) False (new_page :: nat world))))) = []"
proof -
  have h: "run (OrderHistoryPage 4 False) [] (new_page :: nat world) = Some new_page"
    "listener (new_page :: nat world) = None"
    by (simp_all add: new_page_def)
  obtain w' where r: "run (OrderHistoryPage 4 False) [NavigateFrom, NavigateTo True]
     (OnNavigatedTo (OrderHistoryPage 4 False) False (new_page :: nat world)) = Some w'"
    by (simp add: run_defs)
  note t = failed_registration_no_consumer[OF h]
  from t have a: "OnNavigatedTo (OrderHistoryPage 4 False) False (new_page :: nat world) =
      new_page\<lparr>has_ctx := True, cancelled := False,
        listener := Some (next_addr (new_page :: nat world)),
        chans := (chans new_page)(next_addr (new_page :: nat world) :=
          make_chan (chan_cap (OrderHistoryPage 4 False))),
        next_addr := Suc (next_addr (new_page :: nat world)),
        trace := trace new_page @ [EvAdd False, EvLogError]\<rparr>"
    by blast
  from t r have b: "consumers w' = consumers (new_page :: nat world) \<and>
      dispatched (next_addr (new_page :: nat world)) (trace w') = []"
    by blast
  from b r h show ?thesis
    unfolding a by (simp add: new_page_def)
qed

text \<open>
  Claim C9. After a rejected registration the listener pointer stays set to the
  listener allocated by that attach, in every continuation: attach returns at
  the nil guard whatever the engine would answer, the engine's add function is
  never called again, nothing is registered, and no notification is dispatched.
\<close>

theorem failed_registration_is_permanent:
  assumes "run cf acts new_page = Some w" "listener w = None"
    and "run cf acts' (OnNavigatedTo cf False w) = Some w'"
  shows "listener w' = Some (next_addr w) \<and>
         listenForSyncNotifications cf accept w' = w' \<and>
         registry w' = [] \<and>
         add_calls (trace w') = Suc (add_calls (trace w)) \<and>
         (\<forall>a. dispatched a (trace w') = dispatched a (trace w))"
proof -
  from assms(1) have i: "inv cf w" by (rule reachable_inv)
  note eq = failed_attach_eq[OF i assms(2)]
  from degraded_run[OF failed_attach_degraded[OF i assms(2)] assms(3)]
  have d: "degraded (OnNavigatedTo cf False w) w'" .
  then show ?thesis
    unfolding eq degraded_def by (simp add: listenForSyncNotifications_def)
qed

theorem failed_registration_is_permanent_witness:
  "run (ProposalsPage 4 False) full_cycle new_page \<noteq> None \<and>
   listener (the (run (ProposalsPage 4 False) full_cycle new_page)) = None \<and>
   next_addr (the (run (ProposalsPage 4 False) full_cycle new_page)) = 1 \<and>
   run (ProposalsPage 4 False) [NavigateFrom, NavigateTo True, NavigateFrom, NavigateTo True]
     (OnNavigatedTo (ProposalsPage 4 False) False
        (the (run (ProposalsPage 4 False) full_cycle new_page))) \<noteq> None \<and>
   listener (the (run (ProposalsPage 4 False)
     [NavigateFrom, NavigateTo True, NavigateFrom, NavigateTo True]
     (OnNavigatedTo (ProposalsPage 4 False) False
        (the (run (ProposalsPage 4 False) full_cycle new_page))))) = Some 1 \<and>
   registry (the (run (ProposalsPage 4 False)
     [NavigateFrom, NavigateTo True, NavigateFrom, NavigateTo True]
     (OnNavigatedTo (ProposalsPage 4 False) False
        (the (run (ProposalsPage 4 False) full_cycle new_page))))) = [] \<and>
   add_calls (trace (the (run (ProposalsPage 4 False)
     [NavigateFrom, NavigateTo True, NavigateFrom, NavigateTo True]
     (OnNavigatedTo (ProposalsPage 4 False) False
        (the (run (ProposalsPage 4 False) full_cycle new_page)))))) = 2"
proof -
  obtain w :: "nat world" where h: "run (ProposalsPage 4 False) full_cycle new_page = Some w"
    and f: "listener w = None" "next_addr w = 1" "add_calls (trace w) = 1"
    and p: "panicked w = None" "consumers w = [Returned]" "registry w = []"
    by (simp add: full_cycle_def run_defs)
  obtain w' where r: "run (ProposalsPage 4 False)
      [NavigateFrom, NavigateTo True, NavigateFrom, NavigateTo True]
      (OnNavigatedTo (ProposalsPage 4 False) False w) = Some w'"
    using f p by (simp add: run_defs)
  from failed_registration_is_permanent[OF h f(1) r] h r f show ?thesis
    by simp
qed

text \<open>
  Claim C10. On the transactions page \<^verbatim>\<open>OnClose\<close> only cancels the context,
  and a consumer at its \<^verbatim>\<open>select\<close> then returns by the cancellation case: the
  state after both differs from the state before in the cancellation flag and
  that consumer's program counter only. The engine's table and the shared
  channel are untouched.
\<close>

theorem transactions_detach_frame:
  assumes "i < length (tx_consumers w)" "tx_consumers w ! i = TxAtSelect"
  shows "tx_step TxClose w = Some (w\<lparr>tx_cancelled := True\<rparr>) \<and>
         tx_step (TxSelectCancel i) (w\<lparr>tx_cancelled := True\<rparr>) =
           Some (w\<lparr>tx_cancelled := True, tx_consumers := (tx_consumers w)[i := TxReturned]\<rparr>) \<and>
         tx_registry (OnClose w) = tx_registry w \<and>
         NotificationsUpdate (OnClose w) = NotificationsUpdate w \<and>
         tx_consumers (OnClose w) = tx_consumers w"
  using assms by (simp add: tx_step_def OnClose_def tx_select_cancel_def)

theorem transactions_detach_frame_witness:
  "0 < length (tx_consumers tx_example) \<and> tx_consumers tx_example ! 0 = TxAtSelect \<and>
   tx_step TxClose tx_example = Some (tx_example\<lparr>tx_cancelled := True\<rparr>) \<and>
   tx_step (TxSelectCancel 0) (tx_example\<lparr>tx_cancelled := True\<rparr>) =
     Some \<lparr>NotificationsUpdate = \<lparr>cap = 4, buf = [NewTransactionNote 1], closed = False\<rparr>,
           tx_cancelled = True, tx_registry = [(''Main'', RegListener 0)],
           tx_consumers = [TxReturned], selected_wallet = 1, loads = 1\<rparr>"
proof -
  have h: "0 < length (tx_consumers tx_example)" "tx_consumers tx_example ! 0 = TxAtSelect"
    by (simp_all add: tx_example_def)
  from transactions_detach_frame[OF h] h show ?thesis
    by (simp add: tx_example_def)
qed

end
